theory Spec2Isabelle
  imports Complex_Main "HOL-Library.AList"
begin


section \<open>Analysis cache (js/CacheManager.js, class CacheManager)\<close>

subsection \<open>Audio files and cache keys\<close>

text \<open>
  The dataset loader builds every file object with \<^verbatim>\<open>size: file.size || 'Unknown'\<close>, so
  the \<^verbatim>\<open>size\<close> property is a byte count or the string \<^verbatim>\<open>'Unknown'\<close>; the objects of
  \<^verbatim>\<open>createDummyAudioData\<close> have neither \<^verbatim>\<open>path\<close> nor \<^verbatim>\<open>size\<close> (both read as
  \<^verbatim>\<open>undefined\<close>). The field \<open>fsize\<close> is the source's \<^verbatim>\<open>size\<close>.
\<close>

datatype file_size = Bytes nat | Unknown | NoSize

record audio_file =
  name :: string
  path :: "string option"
  fsize :: file_size
  url :: "string option"

text \<open>
  String conversion of a template literal. A byte count is a non-negative integer below
  \<open>2^53\<close>, which JavaScript prints in decimal without exponent.
\<close>

definition digit_char :: "nat \<Rightarrow> char" where
  "digit_char d = char_of (48 + d)"

function decimal :: "nat \<Rightarrow> string" where
  "decimal n = (if n < 10 then [digit_char n] else decimal (n div 10) @ [digit_char (n mod 10)])"
  by pat_completeness auto
termination
  by (relation "measure id") auto

declare decimal.simps [simp del]

definition path_str :: "string option \<Rightarrow> string" where
  "path_str p = (case p of None \<Rightarrow> ''undefined'' | Some s \<Rightarrow> s)"

definition size_str :: "file_size \<Rightarrow> string" where
  "size_str z = (case z of Bytes n \<Rightarrow> decimal n | Unknown \<Rightarrow> ''Unknown'' | NoSize \<Rightarrow> ''undefined'')"

text \<open>\<^verbatim>\<open>generateFileKey(audioFile) { return `${audioFile.path}_${audioFile.size}`; }\<close>\<close>

definition generateFileKey :: "audio_file \<Rightarrow> string" where
  "generateFileKey audioFile = path_str (path audioFile) @ ''_'' @ size_str (fsize audioFile)"

subsection \<open>Cache entries, the store and its persisted form\<close>

text \<open>
  A cache entry as \<^verbatim>\<open>setCachedAnalysis\<close> builds it; \<open>entryPath\<close> and \<open>entrySize\<close> are its
  \<^verbatim>\<open>path\<close> and \<^verbatim>\<open>size\<close> properties. Timestamps are \<^verbatim>\<open>Date.now()\<close> readings
  (milliseconds). The analysis is whatever value the caller hands in.
\<close>

record 'a cache_entry =
  fileName :: string
  entryPath :: "string option"
  entrySize :: file_size
  analysis :: 'a
  cachedAt :: nat
  lastAccessed :: nat

text \<open>
  \<^verbatim>\<open>this.cache = { version, data }\<close>. The object \<^verbatim>\<open>data\<close> is a list of key/entry pairs in
  property order: cache keys contain an underscore, so none is an array index and the
  property order is the insertion order. \<open>version = None\<close> is \<^verbatim>\<open>undefined\<close>.
\<close>

record 'a cache_store =
  version :: "string option"
  data :: "(string \<times> 'a cache_entry) list"

text \<open>
  The text stored under \<^verbatim>\<open>storageKey\<close>: \<open>Doc c\<close> is \<^verbatim>\<open>JSON.stringify(c)\<close>, which
  \<^verbatim>\<open>JSON.parse\<close> reads back as \<open>c\<close> (a \<^verbatim>\<open>version\<close> that is \<^verbatim>\<open>undefined\<close> is left out
  by \<^verbatim>\<open>stringify\<close> and read back as \<^verbatim>\<open>undefined\<close>); \<open>Corrupt\<close> is any other text, on
  which the \<^verbatim>\<open>try\<close> block of \<^verbatim>\<open>loadCache\<close> throws.
\<close>

datatype 'a stored = Corrupt | Doc "'a cache_store"

datatype js_error = QuotaExceededError | TypeError | OtherError

text \<open>
  What the browser decides: the byte length of the serialised store
  (\<^verbatim>\<open>new Blob([serialized]).size\<close>) and whether \<^verbatim>\<open>localStorage.setItem\<close> throws.
\<close>

record 'a storage_env =
  byteLength :: "'a stored \<Rightarrow> nat"
  writeFails :: "'a stored \<Rightarrow> js_error option"

text \<open>
  The manager object together with the \<^verbatim>\<open>localStorage\<close> item under its key.
  \<open>cacheVersion = None\<close> is the field before the constructor has assigned it.
  \<^verbatim>\<open>maxCacheSize\<close> is assigned once (500) and read only by methods called after
  construction.
\<close>

record 'a cache_manager =
  cache :: "'a cache_store"
  cacheVersion :: "string option"
  localStorage :: "'a stored option"

definition maxCacheSize :: nat where
  "maxCacheSize = 500"

text \<open>
  \<^verbatim>\<open>Math.floor(this.maxCacheSize * 0.7)\<close>: the double product \<open>500 * 0.7\<close> rounds to
  exactly \<open>350\<close>.
\<close>

definition keepCount :: nat where
  "keepCount = (maxCacheSize * 7) div 10"

text \<open>\<^verbatim>\<open>4.5 * 1024 * 1024\<close>\<close>

definition byteBudget :: nat where
  "byteBudget = 4718592"

text \<open>\<^verbatim>\<open>entries.slice(-keepCount)\<close>; \<^verbatim>\<open>slice(-0)\<close> is \<^verbatim>\<open>slice(0)\<close>.\<close>

definition slice_last :: "nat \<Rightarrow> 'b list \<Rightarrow> 'b list" where
  "slice_last k xs = (if k = 0 then xs else drop (length xs - k) xs)"

text \<open>
  \<^verbatim>\<open>pruneCache\<close>: the entries sorted by \<^verbatim>\<open>lastAccessed\<close> ascending (the sort of an array
  is stable), the last \<open>keepCount\<close> of them kept, and \<^verbatim>\<open>data\<close> rebuilt from them in that
  order (\<^verbatim>\<open>Object.fromEntries\<close> of pairs with distinct keys).
\<close>

definition pruneCache :: "'a cache_manager \<Rightarrow> 'a cache_manager" where
  "pruneCache m =
     (let entries = data (cache m);
          sorted_entries = sort_key (\<lambda>kv. lastAccessed (snd kv)) entries;
          toKeep = slice_last keepCount sorted_entries
      in m\<lparr>cache := (cache m)\<lparr>data := toKeep\<rparr>\<rparr>)"

definition setItem :: "'a storage_env \<Rightarrow> 'a stored \<Rightarrow> js_error + 'a stored option" where
  "setItem env txt = (case writeFails env txt of Some e \<Rightarrow> Inl e | None \<Rightarrow> Inr (Some txt))"

text \<open>
  \<^verbatim>\<open>saveCache\<close>. The text is serialised first; the size check may prune; the write then
  stores the text serialised before the check. Only the handler of
  \<^verbatim>\<open>QuotaExceededError\<close> serialises again.
\<close>

definition saveCache :: "'a storage_env \<Rightarrow> 'a cache_manager \<Rightarrow> 'a cache_manager" where
  "saveCache env m =
     (let serialized = Doc (cache m);
          estimatedSize = byteLength env serialized;
          m1 = (if estimatedSize > byteBudget then pruneCache m else m)
      in case setItem env serialized of
           Inr item \<Rightarrow> m1\<lparr>localStorage := item\<rparr>
         | Inl QuotaExceededError \<Rightarrow>
             (let m2 = pruneCache m1
              in case setItem env (Doc (cache m2)) of
                   Inr item \<Rightarrow> m2\<lparr>localStorage := item\<rparr>
                 | Inl e \<Rightarrow> m2)
         | Inl error \<Rightarrow> m1)"

definition hasCachedAnalysis :: "'a cache_manager \<Rightarrow> audio_file \<Rightarrow> bool" where
  "hasCachedAnalysis m audioFile = (generateFileKey audioFile \<in> fst ` set (data (cache m)))"

text \<open>
  \<^verbatim>\<open>getCachedAnalysis\<close> at clock reading \<open>now\<close>: the new manager and the returned
  analysis (\<open>None\<close> is \<^verbatim>\<open>null\<close>).
\<close>

definition getCachedAnalysis :: "'a cache_manager \<Rightarrow> audio_file \<Rightarrow> nat \<Rightarrow> 'a cache_manager \<times> 'a option" where
  "getCachedAnalysis m audioFile now =
     (let key = generateFileKey audioFile
      in case map_of (data (cache m)) key of
           Some cached \<Rightarrow>
             (m\<lparr>cache := (cache m)\<lparr>data := AList.update key (cached\<lparr>lastAccessed := now\<rparr>) (data (cache m))\<rparr>\<rparr>,
              Some (analysis cached))
         | None \<Rightarrow> (m, None))"

text \<open>
  \<^verbatim>\<open>setCachedAnalysis\<close>; \<open>t1\<close> and \<open>t2\<close> are the two \<^verbatim>\<open>Date.now()\<close> readings of the
  object literal.
\<close>

definition setCachedAnalysis ::
  "'a storage_env \<Rightarrow> 'a cache_manager \<Rightarrow> audio_file \<Rightarrow> 'a \<Rightarrow> nat \<Rightarrow> nat \<Rightarrow> 'a cache_manager" where
  "setCachedAnalysis env m audioFile a t1 t2 =
     (let key = generateFileKey audioFile;
          entry = \<lparr>fileName = name audioFile, entryPath = path audioFile,
                   entrySize = fsize audioFile, analysis = a, cachedAt = t1, lastAccessed = t2\<rparr>;
          m1 = m\<lparr>cache := (cache m)\<lparr>data := AList.update key entry (data (cache m))\<rparr>\<rparr>;
          m2 = (if length (data (cache m1)) > maxCacheSize then pruneCache m1 else m1)
      in saveCache env m2)"

definition clearCache :: "'a cache_manager \<Rightarrow> 'a cache_manager" where
  "clearCache m = m\<lparr>cache := \<lparr>version = cacheVersion m, data = []\<rparr>, localStorage := None\<rparr>"

text \<open>\<^verbatim>\<open>loadCache\<close>: the manager after its side effects, and the store it returns.\<close>

definition loadCache :: "'a cache_manager \<Rightarrow> 'a cache_manager \<times> 'a cache_store" where
  "loadCache m =
     (case localStorage m of
        None \<Rightarrow> (m, \<lparr>version = cacheVersion m, data = []\<rparr>)
      | Some Corrupt \<Rightarrow> (m, \<lparr>version = cacheVersion m, data = []\<rparr>)
      | Some (Doc parsed) \<Rightarrow>
          if version parsed \<noteq> cacheVersion m
          then (let m' = clearCache m in (m', \<lparr>version = cacheVersion m', data = []\<rparr>))
          else (m, parsed))"

text \<open>
  The constructor, on the item found in \<^verbatim>\<open>localStorage\<close>:
  \<^verbatim>\<open>this.cache = this.loadCache(); this.maxCacheSize = 500; this.cacheVersion = '1.0';\<close>
  in this order. Before the first assignment \<^verbatim>\<open>this.cache\<close> is not read.
\<close>

definition new_CacheManager :: "'a stored option \<Rightarrow> 'a cache_manager" where
  "new_CacheManager item =
     (let m0 = \<lparr>cache = \<lparr>version = None, data = []\<rparr>, cacheVersion = None, localStorage = item\<rparr>;
          (m1, loaded) = loadCache m0;
          m2 = m1\<lparr>cache := loaded\<rparr>
      in m2\<lparr>cacheVersion := Some ''1.0''\<rparr>)"


subsection \<open>Sequences of calls and sample data\<close>

text \<open>The entry that \<open>setCachedAnalysis\<close> stores for a file.\<close>

definition new_entry :: "audio_file \<Rightarrow> 'a \<Rightarrow> nat \<Rightarrow> nat \<Rightarrow> 'a cache_entry" where
  "new_entry audioFile a t1 t2 =
     \<lparr>fileName = name audioFile, entryPath = path audioFile, entrySize = fsize audioFile,
      analysis = a, cachedAt = t1, lastAccessed = t2\<rparr>"

text \<open>
  A call of \<open>setCachedAnalysis\<close> is its file, its analysis and its two clock readings;
  \<open>setCachedAnalysis_calls\<close> makes the calls of a list one after the other.
\<close>

definition call_entry :: "audio_file \<times> 'a \<times> nat \<times> nat \<Rightarrow> string \<times> 'a cache_entry" where
  "call_entry c = (case c of (f, a, t1, t2) \<Rightarrow> (generateFileKey f, new_entry f a t1 t2))"


text \<open>
  Sample data: file number \<open>i\<close> of a dataset, analysed as the value \<open>i\<close> at clock reading
  \<open>1000 + i\<close>; a browser in which every write succeeds and the text is short; and one in
  which a store of \<open>maxCacheSize\<close> entries does not fit the quota any more.
\<close>

definition sample_file :: "nat \<Rightarrow> audio_file" where
  "sample_file i = \<lparr>name = ''clip.mp3'', path = Some ''audio/clip.mp3'', fsize = Bytes i, url = None\<rparr>"

definition sample_call :: "nat \<Rightarrow> audio_file \<times> nat \<times> nat \<times> nat" where
  "sample_call i = (sample_file i, i, 1000 + i, 1000 + i)"

definition late_file :: audio_file where
  "late_file = \<lparr>name = ''late.mp3'', path = Some ''audio/late.mp3'', fsize = Bytes 1, url = None\<rparr>"

definition calm_env :: "nat storage_env" where
  "calm_env = \<lparr>byteLength = (\<lambda>t. 0), writeFails = (\<lambda>t. None)\<rparr>"

definition stored_entries :: "'a stored \<Rightarrow> nat" where
  "stored_entries t = (case t of Corrupt \<Rightarrow> 0 | Doc c \<Rightarrow> length (data c))"


definition full_manager :: "nat cache_manager" where
  "full_manager = \<lparr>cache = \<lparr>version = None, data = map call_entry (map sample_call [0..<500])\<rparr>,
                     cacheVersion = Some ''1.0'', localStorage = None\<rparr>"

text \<open>
  A store of 351 entries whose text takes 13450 bytes an entry, over the budget with 351
  entries and within it with 350; and two persisted items, one as \<open>saveCache\<close> writes
  it (the \<^verbatim>\<open>version\<close> of the store in memory is \<^verbatim>\<open>undefined\<close>, so the text has none) and
  one tagged with an older version.
\<close>

definition tight_env :: "nat storage_env" where
  "tight_env = \<lparr>byteLength = (\<lambda>t. 13450 * stored_entries t), writeFails = (\<lambda>t. None)\<rparr>"

definition crowded_manager :: "nat cache_manager" where
  "crowded_manager = \<lparr>cache = \<lparr>version = None, data = map call_entry (map sample_call [0..<351])\<rparr>,
                        cacheVersion = Some ''1.0'', localStorage = None\<rparr>"

definition unversioned_item :: "nat stored" where
  "unversioned_item = Doc \<lparr>version = None, data = [call_entry (sample_call 0)]\<rparr>"

definition old_version_item :: "nat stored" where
  "old_version_item = Doc \<lparr>version = Some ''0.9'', data = [call_entry (sample_call 0)]\<rparr>"


subsection \<open>Predicates for the proofs\<close>

text \<open>
  A store on which a call for key \<open>k\<close> at clock reading \<open>t\<close> cannot lose its entry:
  it holds fewer than \<open>keepCount\<close> other entries, or no other entry was accessed after
  \<open>t\<close> and the entries behind the one of \<open>k\<close>, if there is one, were accessed before \<open>t\<close>.
\<close>

definition safe_to_set :: "string \<Rightarrow> nat \<Rightarrow> (string \<times> 'a cache_entry) list \<Rightarrow> bool" where
  "safe_to_set k t xs =
     (length (filter (\<lambda>kv. fst kv \<noteq> k) xs) < keepCount \<or>
      (list_all (\<lambda>kv. fst kv = k \<or> lastAccessed (snd kv) \<le> t) xs \<and>
       list_all (\<lambda>kv. lastAccessed (snd kv) < t) (tl (dropWhile (\<lambda>kv. fst kv \<noteq> k) xs))))"

text \<open>
  Entry \<open>e\<close> under key \<open>k\<close> is in the list, whose keys are distinct, and eviction keeps
  it: there are fewer than \<open>keepCount\<close> other entries, or the stable sort puts it last.
\<close>

definition kept_safely :: "string \<Rightarrow> 'a cache_entry \<Rightarrow> (string \<times> 'a cache_entry) list \<Rightarrow> bool" where
  "kept_safely k e xs =
     (distinct (map fst xs) \<and> (k, e) \<in> set xs \<and>
      (length (filter (\<lambda>kv. fst kv \<noteq> k) xs) < keepCount \<or>
       (\<exists>ys zs. xs = ys @ (k, e) # zs \<and>
          list_all (\<lambda>kv. lastAccessed (snd kv) \<le> lastAccessed e) ys \<and>
          list_all (\<lambda>kv. lastAccessed (snd kv) < lastAccessed e) zs)))"


section \<open>Worker channel (class EssentiaWorkerManager)\<close>

subsection \<open>Analysis results and the synthetic fallback\<close>

text \<open>
  The record that the worker and \<^verbatim>\<open>generateMockAnalysis\<close> build (\<open>structureLabel\<close> is its
  \<^verbatim>\<open>structure\<close> property). JavaScript numbers are read as reals.
\<close>

record analysis_result =
  energy :: real
  mood :: real
  key :: string
  scale :: string
  tempo :: real
  loudness :: real
  keyStrength :: real
  structureLabel :: string

definition structures :: "string list" where
  "structures = [''hook'', ''verse'', ''pre-chorus'', ''chorus'', ''outro'']"

definition pitch_classes :: "string list" where
  "pitch_classes = [''C'', ''C#'', ''D'', ''D#'', ''E'', ''F'', ''F#'', ''G'', ''G#'', ''A'', ''A#'', ''B'']"

text \<open>
  \<^verbatim>\<open>generateMockAnalysis\<close>, where \<open>random k\<close> is the value of call number \<open>k\<close> of
  \<^verbatim>\<open>Math.random()\<close> (a number in \<open>[0, 1)\<close>, so that both indices are in range) and \<open>k\<close>
  the number of calls made before. The object literal makes eight calls, in the order
  of its properties.
\<close>

definition generateMockAnalysis :: "(nat \<Rightarrow> real) \<Rightarrow> nat \<Rightarrow> analysis_result" where
  "generateMockAnalysis random k =
     \<lparr>energy = random k,
      mood = random (k + 1),
      key = pitch_classes ! nat \<lfloor>random (k + 2) * 12\<rfloor>,
      scale = (if random (k + 3) > 0.5 then ''major'' else ''minor''),
      tempo = 60 + random (k + 4) * 120,
      loudness = - 40 + random (k + 5) * 30,
      keyStrength = random (k + 6),
      structureLabel = structures ! nat \<lfloor>random (k + 7) * real (length structures)\<rfloor>\<rparr>"

subsection \<open>Messages, promises and the manager\<close>

text \<open>
  Requests \<^verbatim>\<open>{type, payload, id}\<close> as \<^verbatim>\<open>initialize\<close> and \<^verbatim>\<open>analyzeAudio\<close> send them (the
  \<^verbatim>\<open>audioBuffer\<close> of the payload may be \<^verbatim>\<open>null\<close>), and responses as
  \<^verbatim>\<open>js/essentia.worker.js\<close> posts them.
\<close>

datatype worker_handle = Worker

datatype request_body = Init | Analyze "real list option" string

datatype response_body = Init_complete bool | Analysis_complete analysis_result string | Error string

datatype rejection = Error_message string | TypeError_null_worker

datatype settlement = Resolved response_body | Rejected rejection

text \<open>
  The first four fields are those of the object; \<^verbatim>\<open>pendingMessages\<close> is the list of the
  ids of its \<^verbatim>\<open>Map\<close>, whose values are the \<^verbatim>\<open>resolve\<close> and \<^verbatim>\<open>reject\<close> of the promise
  that \<^verbatim>\<open>sendMessage\<close> returned for that id. The other fields are the part of the
  browser the methods act on: how each of those promises was settled, the armed
  \<^verbatim>\<open>setTimeout\<close> callbacks as (deadline, id), the messages posted to the worker, the
  clock in milliseconds, and the number of calls of \<^verbatim>\<open>Math.random\<close> made.
\<close>

record worker_manager =
  worker :: "worker_handle option"
  isInitialized :: bool
  messageId :: nat
  pendingMessages :: "nat list"
  promises :: "nat \<Rightarrow> settlement option"
  timers :: "(nat \<times> nat) list"
  posted :: "(request_body \<times> nat) list"
  clock :: nat
  randomCalls :: nat

definition new_EssentiaWorkerManager :: "nat \<Rightarrow> worker_manager" where
  "new_EssentiaWorkerManager now =
     \<lparr>worker = None, isInitialized = False, messageId = 0, pendingMessages = [],
      promises = (\<lambda>i. None), timers = [], posted = [], clock = now, randomCalls = 0\<rparr>"

text \<open>A promise is settled once; later calls of its \<^verbatim>\<open>resolve\<close> or \<^verbatim>\<open>reject\<close> do nothing.\<close>

definition settle :: "worker_manager \<Rightarrow> nat \<Rightarrow> settlement \<Rightarrow> worker_manager" where
  "settle s i outcome =
     (if promises s i = None then s\<lparr>promises := (promises s)(i \<mapsto> outcome)\<rparr> else s)"

definition map_set :: "nat \<Rightarrow> nat list \<Rightarrow> nat list" where
  "map_set i ids = (if i \<in> set ids then ids else ids @ [i])"

definition timeout_ms :: nat where
  "timeout_ms = 60000"

definition timeout_error :: rejection where
  "timeout_error = Error_message ''Worker message timeout''"

text \<open>
  \<^verbatim>\<open>sendMessage\<close>: the state after the executor of the promise has run, and the id of
  the promise. With \<^verbatim>\<open>this.worker\<close> \<^verbatim>\<open>null\<close> the call of \<^verbatim>\<open>postMessage\<close> throws a
  \<^verbatim>\<open>TypeError\<close>, which rejects the promise before the timer is armed; the entry of the
  map is already there.
\<close>

definition sendMessage :: "worker_manager \<Rightarrow> request_body \<Rightarrow> worker_manager \<times> nat" where
  "sendMessage s body =
     (let i = messageId s;
          s1 = s\<lparr>messageId := i + 1, pendingMessages := map_set i (pendingMessages s)\<rparr>
      in case worker s1 of
           None \<Rightarrow> (settle s1 i (Rejected TypeError_null_worker), i)
         | Some w \<Rightarrow>
             (s1\<lparr>posted := posted s1 @ [(body, i)],
                 timers := timers s1 @ [(clock s1 + timeout_ms, i)]\<rparr>, i))"

definition settlement_of :: "response_body \<Rightarrow> settlement" where
  "settlement_of r = (case r of Error msg \<Rightarrow> Rejected (Error_message msg) | _ \<Rightarrow> Resolved r)"

text \<open>\<^verbatim>\<open>handleMessage\<close> on the message \<^verbatim>\<open>{type, payload, id}\<close>, and what it writes to the console.\<close>

definition handleMessage :: "worker_manager \<Rightarrow> response_body \<times> nat \<Rightarrow> worker_manager" where
  "handleMessage s msg =
     (let i = snd msg
      in if i \<notin> set (pendingMessages s) then s
         else settle (s\<lparr>pendingMessages := removeAll i (pendingMessages s)\<rparr>) i (settlement_of (fst msg)))"


text \<open>The callback that \<^verbatim>\<open>sendMessage\<close> hands to \<^verbatim>\<open>setTimeout\<close> for id \<open>i\<close>.\<close>

definition timeout_callback :: "worker_manager \<Rightarrow> nat \<Rightarrow> worker_manager" where
  "timeout_callback s i =
     (if i \<in> set (pendingMessages s)
      then settle (s\<lparr>pendingMessages := removeAll i (pendingMessages s)\<rparr>) i (Rejected timeout_error)
      else s)"

text \<open>
  The clock moves on to \<open>t\<close>: the timers that are due run in the order in which they were
  armed (all have the same delay) and are disarmed.
\<close>

definition time_passes :: "worker_manager \<Rightarrow> nat \<Rightarrow> worker_manager" where
  "time_passes s t =
     (let due = filter (\<lambda>timer. fst timer \<le> t) (timers s);
          not_due = filter (\<lambda>timer. t < fst timer) (timers s);
          s1 = foldl timeout_callback s (map snd due)
      in s1\<lparr>timers := not_due, clock := max (clock s) t\<rparr>)"

definition terminate :: "worker_manager \<Rightarrow> worker_manager" where
  "terminate s = (case worker s of None \<Rightarrow> s | Some w \<Rightarrow> s\<lparr>worker := None, isInitialized := False\<rparr>)"

text \<open>
  What can happen to a manager, one step at a time: a call of \<^verbatim>\<open>sendMessage\<close>, a
  message from the worker, time passing, \<^verbatim>\<open>terminate\<close>, the two assignments of
  \<^verbatim>\<open>initialize\<close> (the new worker, and the flag once the handshake is over), and a call
  of \<^verbatim>\<open>generateMockAnalysis\<close>.
\<close>

datatype event =
    Sends request_body
  | Delivers response_body nat
  | Time_passes nat
  | Terminates
  | Starts_worker
  | Sets_initialized bool
  | Generates_mock

fun step :: "worker_manager \<Rightarrow> event \<Rightarrow> worker_manager" where
  "step s (Sends body) = fst (sendMessage s body)"
| "step s (Delivers r i) = handleMessage s (r, i)"
| "step s (Time_passes t) = time_passes s t"
| "step s Terminates = terminate s"
| "step s Starts_worker = s\<lparr>worker := Some Worker\<rparr>"
| "step s (Sets_initialized b) = s\<lparr>isInitialized := b\<rparr>"
| "step s Generates_mock = s\<lparr>randomCalls := randomCalls s + 8\<rparr>"

definition run :: "worker_manager \<Rightarrow> event list \<Rightarrow> worker_manager" where
  "run s evs = foldl step s evs"

fun answers :: "nat \<Rightarrow> event \<Rightarrow> bool" where
  "answers i (Delivers r j) = (i = j)"
| "answers i e = False"

subsection \<open>The asynchronous methods, run to completion\<close>

text \<open>
  What the browser and the worker decide: whether \<^verbatim>\<open>new Worker\<close> succeeds, the worker's
  response to a request (\<open>None\<close>: no response within the timeout), and the values of
  \<^verbatim>\<open>Math.random\<close>.
\<close>

record channel_env =
  spawns :: bool
  reply :: "request_body \<Rightarrow> nat \<Rightarrow> response_body option"
  random :: "nat \<Rightarrow> real"

text \<open>
  \<^verbatim>\<open>await this.sendMessage(...)\<close>, for the promise of id \<open>i\<close>: the promise is settled
  already, or the worker's response is delivered, or the timeout passes.
\<close>

definition await_response ::
  "channel_env \<Rightarrow> worker_manager \<Rightarrow> request_body \<Rightarrow> nat \<Rightarrow> worker_manager \<times> settlement" where
  "await_response env s body i =
     (case promises s i of
        Some outcome \<Rightarrow> (s, outcome)
      | None \<Rightarrow>
          (case reply env body i of
             Some r \<Rightarrow> (handleMessage s (r, i), settlement_of r)
           | None \<Rightarrow> (time_passes s (clock s + timeout_ms), Rejected timeout_error)))"

text \<open>\<^verbatim>\<open>initialize\<close>: the manager afterwards and the returned flag.\<close>

definition initialize :: "channel_env \<Rightarrow> worker_manager \<Rightarrow> worker_manager \<times> bool" where
  "initialize env s =
     (if \<not> spawns env then (s\<lparr>isInitialized := False\<rparr>, False)
      else
        (let s0 = s\<lparr>worker := Some Worker\<rparr>;
             (s1, i) = sendMessage s0 Init;
             (s2, outcome) = await_response env s1 Init i
         in case outcome of
              Resolved (Init_complete True) \<Rightarrow> (s2\<lparr>isInitialized := True\<rparr>, True)
            | Resolved r \<Rightarrow> (s2, False)
            | Rejected e \<Rightarrow> (s2\<lparr>isInitialized := False\<rparr>, False)))"

text \<open>The call \<^verbatim>\<open>this.generateMockAnalysis()\<close> in a state.\<close>

definition mock_analysis :: "channel_env \<Rightarrow> worker_manager \<Rightarrow> worker_manager \<times> analysis_result option" where
  "mock_analysis env s =
     (s\<lparr>randomCalls := randomCalls s + 8\<rparr>, Some (generateMockAnalysis (random env) (randomCalls s)))"

text \<open>
  \<^verbatim>\<open>analyzeAudio(audioBuffer, fileName)\<close> (\<open>fname\<close> is its \<^verbatim>\<open>fileName\<close>): the manager
  afterwards and the returned value
  (\<open>None\<close> is \<^verbatim>\<open>undefined\<close>, the \<^verbatim>\<open>analysis\<close> property of a payload that has none).
\<close>

definition analyzeAudio ::
  "channel_env \<Rightarrow> worker_manager \<Rightarrow> real list option \<Rightarrow> string \<Rightarrow> worker_manager \<times> analysis_result option" where
  "analyzeAudio env s audioBuffer fname =
     (if \<not> isInitialized s then mock_analysis env s
      else
        (let (s1, i) = sendMessage s (Analyze audioBuffer fname);
             (s2, outcome) = await_response env s1 (Analyze audioBuffer fname) i
         in case outcome of
              Resolved (Analysis_complete a l) \<Rightarrow> (s2, Some a)
            | Resolved r \<Rightarrow> (s2, None)
            | Rejected e \<Rightarrow> mock_analysis env s2))"


subsection \<open>Predicates for the proofs, and sample states\<close>

text \<open>
  Ids are handed out in increasing order: every id in the map, in a timer or of a settled
  promise is below \<open>messageId\<close>.
\<close>

definition ids_below :: "worker_manager \<Rightarrow> bool" where
  "ids_below s =
     (list_all (\<lambda>i. i < messageId s) (pendingMessages s) \<and>
      list_all (\<lambda>timer. snd timer < messageId s) (timers s) \<and>
      (\<forall>i. messageId s \<le> i \<longrightarrow> promises s i = None))"

text \<open>
  Request \<open>i\<close> is waiting with deadline \<open>d\<close>: it is in the map, its promise is not settled,
  and exactly one timer, not yet due, is armed for it. Request \<open>i\<close> has expired: it was
  rejected by its timer.
\<close>

definition waiting :: "nat \<Rightarrow> nat \<Rightarrow> worker_manager \<Rightarrow> bool" where
  "waiting d i s =
     (i \<in> set (pendingMessages s) \<and> promises s i = None \<and> clock s < d \<and>
      d \<le> clock s + timeout_ms \<and>
      filter (\<lambda>timer. snd timer = i) (timers s) = [(d, i)] \<and> ids_below s)"

definition expired :: "nat \<Rightarrow> worker_manager \<Rightarrow> bool" where
  "expired i s =
     (i \<notin> set (pendingMessages s) \<and> promises s i = Some (Rejected timeout_error) \<and> i < messageId s)"


text \<open>Every request in the map was rejected when it was sent, or is waiting.\<close>

definition armed :: "worker_manager \<Rightarrow> bool" where
  "armed s =
     (ids_below s \<and>
      list_all (\<lambda>i. promises s i = Some (Rejected TypeError_null_worker) \<or> (\<exists>d. waiting d i s))
        (pendingMessages s))"

text \<open>
  A manager after a successful handshake (request 0) that has sent an \<^verbatim>\<open>analyze\<close>
  request (request 1) and has no response yet; and a worker that never answers.
\<close>

definition busy_worker :: worker_manager where
  "busy_worker = run (new_EssentiaWorkerManager 0)
     [Starts_worker, Sends Init, Delivers (Init_complete True) 0, Sets_initialized True,
      Sends (Analyze None ''clip.mp3'')]"

definition silent_channel :: channel_env where
  "silent_channel = \<lparr>spawns = True, reply = (\<lambda>body i. None), random = (\<lambda>k. 0)\<rparr>"


section \<open>Batch processing (sketch.js)\<close>

text \<open>
  The globals of the sketch that the pipeline acts on. A file of \<^verbatim>\<open>audioFiles\<close> is
  paired with its \<^verbatim>\<open>analysis\<close> property (\<open>None\<close> is \<^verbatim>\<open>null\<close> or \<^verbatim>\<open>undefined\<close>); the cache
  stores such values. \<open>current\<close> and \<open>cached\<close> are the counters of
  \<^verbatim>\<open>processingStatus\<close>. The player objects built for drawing are left out.
\<close>

record pipeline =
  cacheManager :: "analysis_result option cache_manager"
  essentiaWorker :: worker_manager
  audioFiles :: "(audio_file \<times> analysis_result option) list"
  current :: nat
  cached :: nat

text \<open>
  The browser: storage, the worker channel, and the \<^verbatim>\<open>try\<close> block of
  \<^verbatim>\<open>loadAudioBuffer\<close> (fetch, decode, first channel), which yields the samples or throws.
\<close>

record pipeline_env =
  storage :: "analysis_result option storage_env"
  channel :: channel_env
  fetch_and_decode :: "audio_file \<Rightarrow> js_error + real list"

text \<open>\<^verbatim>\<open>loadAudioBuffer\<close>: its \<^verbatim>\<open>catch\<close> logs the error and returns \<^verbatim>\<open>null\<close>.\<close>

definition loadAudioBuffer :: "pipeline_env \<Rightarrow> audio_file \<Rightarrow> real list option" where
  "loadAudioBuffer env audioFile =
     (case fetch_and_decode env audioFile of Inl error \<Rightarrow> None | Inr channelData \<Rightarrow> Some channelData)"

text \<open>
  The \<^verbatim>\<open>forEach\<close> of \<^verbatim>\<open>initializeApp\<close>: a file that is in the cache gets the cached
  analysis and is counted. The result is the cache manager, the files and the count.
\<close>

fun attach_cached ::
  "nat \<Rightarrow> analysis_result option cache_manager \<Rightarrow> (audio_file \<times> analysis_result option) list \<Rightarrow>
   analysis_result option cache_manager \<times> (audio_file \<times> analysis_result option) list \<times> nat" where
  "attach_cached now m [] = (m, [], 0)"
| "attach_cached now m ((f, a) # rest) =
     (if hasCachedAnalysis m f
      then (let (m1, hit) = getCachedAnalysis m f now;
                (m2, rest', n) = attach_cached now m1 rest
            in (m2, (f, case hit of None \<Rightarrow> None | Some v \<Rightarrow> v) # rest', n + 1))
      else (let (m2, rest', n) = attach_cached now m rest
            in (m2, (f, a) # rest', n)))"

text \<open>
  The \<^verbatim>\<open>try\<close> block that \<^verbatim>\<open>processFirstAudioFile\<close> and \<^verbatim>\<open>processRemainingAudioFiles\<close>
  share, for the file at index \<open>i\<close>: load the buffer, analyse, assign, cache. Its value
  is the error thrown or the state at its end. None of the three calls throws:
  \<^verbatim>\<open>loadAudioBuffer\<close> and \<^verbatim>\<open>analyzeAudio\<close> catch their own errors and return a value,
  and so does \<^verbatim>\<open>saveCache\<close> inside \<^verbatim>\<open>setCachedAnalysis\<close>. The clock readings of the
  cache entry are taken when the analysis has returned.
\<close>

definition try_analyze_and_cache :: "pipeline_env \<Rightarrow> pipeline \<Rightarrow> nat \<Rightarrow> js_error + pipeline" where
  "try_analyze_and_cache env p i =
     (let audioFile = fst (audioFiles p ! i);
          audioBuffer = loadAudioBuffer env audioFile;
          (w, a) = analyzeAudio (channel env) (essentiaWorker p) audioBuffer (name audioFile);
          m = setCachedAnalysis (storage env) (cacheManager p) audioFile a (clock w) (clock w)
      in Inr (p\<lparr>cacheManager := m, essentiaWorker := w, audioFiles := (audioFiles p)[i := (audioFile, a)]\<rparr>))"

text \<open>
  The block with its \<^verbatim>\<open>catch\<close>, which assigns a mock analysis and does not cache it
  (\<^verbatim>\<open>// Don't cache mock analysis\<close>).
\<close>

definition analyze_and_cache :: "pipeline_env \<Rightarrow> pipeline \<Rightarrow> nat \<Rightarrow> pipeline" where
  "analyze_and_cache env p i =
     (case try_analyze_and_cache env p i of
        Inr p' \<Rightarrow> p'
      | Inl error \<Rightarrow>
          (let (w, a) = mock_analysis (channel env) (essentiaWorker p)
           in p\<lparr>essentiaWorker := w, audioFiles := (audioFiles p)[i := (fst (audioFiles p ! i), a)]\<rparr>))"

definition processFirstAudioFile :: "pipeline_env \<Rightarrow> pipeline \<Rightarrow> pipeline" where
  "processFirstAudioFile env p =
     (case audioFiles p of
        [] \<Rightarrow> p
      | (audioFile, a0) # rest \<Rightarrow>
          if hasCachedAnalysis (cacheManager p) audioFile
          then (let (m, hit) = getCachedAnalysis (cacheManager p) audioFile (clock (essentiaWorker p))
                in p\<lparr>cacheManager := m,
                      audioFiles := (audioFile, case hit of None \<Rightarrow> None | Some v \<Rightarrow> v) # rest\<rparr>)
          else analyze_and_cache env p 0)"

text \<open>One turn of the loop of \<^verbatim>\<open>processRemainingAudioFiles\<close>, and the loop from index 1.\<close>

definition process_remaining_step :: "pipeline_env \<Rightarrow> pipeline \<Rightarrow> nat \<Rightarrow> pipeline" where
  "process_remaining_step env p i =
     (let p1 = (if hasCachedAnalysis (cacheManager p) (fst (audioFiles p ! i)) then p
                else analyze_and_cache env p i)
      in p1\<lparr>current := i + 1\<rparr>)"

definition processRemainingAudioFiles :: "pipeline_env \<Rightarrow> pipeline \<Rightarrow> pipeline" where
  "processRemainingAudioFiles env p = foldl (process_remaining_step env) p [1..<length (audioFiles p)]"

text \<open>
  \<^verbatim>\<open>initializeApp\<close> from the point where the dataset is loaded: counters, the
  \<^verbatim>\<open>forEach\<close>, the first file, the remaining files.
\<close>

definition process_dataset :: "pipeline_env \<Rightarrow> pipeline \<Rightarrow> pipeline" where
  "process_dataset env p =
     (let (m, files, n) = attach_cached (clock (essentiaWorker p)) (cacheManager p) (audioFiles p);
          p1 = p\<lparr>cacheManager := m, audioFiles := files, current := 0, cached := n\<rparr>;
          p2 = (if audioFiles p1 = [] then p1 else (processFirstAudioFile env p1)\<lparr>current := 1\<rparr>)
      in processRemainingAudioFiles env p2)"

text \<open>
  \<^verbatim>\<open>setup\<close> and \<^verbatim>\<open>initializeApp\<close>: the three managers are built, the worker is
  initialised, and the dataset \<open>files\<close> that the loader returned is processed.
\<close>

definition initializeApp ::
  "pipeline_env \<Rightarrow> analysis_result option stored option \<Rightarrow> nat \<Rightarrow> audio_file list \<Rightarrow> pipeline" where
  "initializeApp env item now files =
     (let (w, ok) = initialize (channel env) (new_EssentiaWorkerManager now)
      in process_dataset env
           \<lparr>cacheManager = new_CacheManager item, essentiaWorker = w,
            audioFiles = map (\<lambda>f. (f, None)) files, current = 0, cached = 0\<rparr>)"

text \<open>A manager whose handshake has succeeded: request 0 was \<^verbatim>\<open>init\<close> and was answered.\<close>

definition ready_worker :: worker_manager where
  "ready_worker =
     \<lparr>worker = Some Worker, isInitialized = True, messageId = 1, pendingMessages = [],
      promises = (\<lambda>i. if i = 0 then Some (Resolved (Init_complete True)) else None),
      timers = [(timeout_ms, 0)], posted = [(Init, 0)], clock = 0, randomCalls = 0\<rparr>"


section \<open>Properties of the cache key\<close>

lemma digit_char_inj: "a < 10 \<Longrightarrow> b < 10 \<Longrightarrow> digit_char a = digit_char b \<Longrightarrow> a = b"
proof -
  assume a: "a < 10" and b: "b < 10" and e: "digit_char a = digit_char b"
  from e have "(of_char (char_of (48 + a)) :: nat) = of_char (char_of (48 + b))"
    by (simp add: digit_char_def)
  with a b show "a = b" by simp
qed

lemma decimal_not_Nil: "decimal n \<noteq> []"
  by (subst decimal.simps) simp

lemma decimal_not_Nil': "[] \<noteq> decimal n"
  using decimal_not_Nil [of n] by (rule not_sym)

lemma decimal_inj: "decimal m = decimal n \<Longrightarrow> m = n"
proof (induction m arbitrary: n rule: decimal.induct)
  case (1 m)
  have um: "decimal m = (if m < 10 then [digit_char m] else decimal (m div 10) @ [digit_char (m mod 10)])"
    by (rule decimal.simps)
  have un: "decimal n = (if n < 10 then [digit_char n] else decimal (n div 10) @ [digit_char (n mod 10)])"
    by (rule decimal.simps)
  show ?case
  proof (cases "m < 10")
    case True
    show ?thesis
    proof (cases "n < 10")
      case True
      with \<open>m < 10\<close> "1.prems" um un show ?thesis
        by (simp add: digit_char_inj)
    next
      case False
      with \<open>m < 10\<close> "1.prems" um un show ?thesis
        by (simp add: decimal_not_Nil decimal_not_Nil')
    qed
  next
    case False
    show ?thesis
    proof (cases "n < 10")
      case True
      with False "1.prems" um un show ?thesis
        by (simp add: decimal_not_Nil decimal_not_Nil')
    next
      case nbig: False
      from False nbig "1.prems" um un
      have "decimal (m div 10) = decimal (n div 10)" and d: "digit_char (m mod 10) = digit_char (n mod 10)"
        by simp_all
      with "1.IH" False have "m div 10 = n div 10" by blast
      moreover from d have "m mod 10 = n mod 10" by (rule digit_char_inj [rotated 2]) simp_all
      ultimately show ?thesis by (metis div_mult_mod_eq)
    qed
  qed
qed

lemma of_char_digit_char: "d < 10 \<Longrightarrow> (of_char (digit_char d) :: nat) = 48 + d"
  by (simp add: digit_char_def)

lemma last_decimal: "last (decimal n) = digit_char (n mod 10)"
  by (subst decimal.simps) simp

lemma decimal_not_word:
  "decimal n \<noteq> ''Unknown''" "decimal n \<noteq> ''undefined''"
proof -
  have d: "(of_char (last (decimal n)) :: nat) = 48 + n mod 10"
    by (simp add: last_decimal of_char_digit_char)
  have "n mod 10 < 10" by simp
  show "decimal n \<noteq> ''Unknown''"
  proof
    assume "decimal n = ''Unknown''"
    with d have "48 + n mod 10 = (of_char CHR ''n'' :: nat)" by simp
    then show False by simp
  qed
  show "decimal n \<noteq> ''undefined''"
  proof
    assume "decimal n = ''undefined''"
    with d have "48 + n mod 10 = (of_char CHR ''d'' :: nat)" by simp
    then show False by simp
  qed
qed

lemma size_str_inj: "size_str a = size_str b \<Longrightarrow> a = b"
  using decimal_not_word decimal_not_word [symmetric]
  by (cases a; cases b) (auto simp: size_str_def dest: decimal_inj)

text \<open>
  Claim C9. The cache key is the function \<open>file \<mapsto> "<path>_<size>"\<close> of the file's
  path and size alone: files that agree on path and size get the same key, and two files
  with the same path and different sizes get different keys; for path \<open>x/y.mp3\<close> the
  sizes 1000 and 2000 give the keys \<open>x/y.mp3_1000\<close> and \<open>x/y.mp3_2000\<close>.
\<close>

theorem generateFileKey_path_size:
  "generateFileKey f = path_str (path f) @ ''_'' @ size_str (fsize f) \<and>
   (path f = path g \<and> fsize f = fsize g \<longrightarrow> generateFileKey f = generateFileKey g) \<and>
   (path f = path g \<and> fsize f \<noteq> fsize g \<longrightarrow> generateFileKey f \<noteq> generateFileKey g)"
  by (auto simp: generateFileKey_def dest: size_str_inj)

theorem generateFileKey_path_size_witness:
  "generateFileKey \<lparr>name = ''y.mp3'', path = Some ''x/y.mp3'', fsize = Bytes 1000, url = None\<rparr>
     = ''x/y.mp3_1000'' \<and>
   generateFileKey \<lparr>name = ''y.mp3'', path = Some ''x/y.mp3'', fsize = Bytes 2000, url = None\<rparr>
     = ''x/y.mp3_2000'' \<and>
   generateFileKey \<lparr>name = ''y.mp3'', path = Some ''x/y.mp3'', fsize = Bytes 1000, url = None\<rparr>
     \<noteq> generateFileKey \<lparr>name = ''y.mp3'', path = Some ''x/y.mp3'', fsize = Bytes 2000, url = None\<rparr>"
proof -
  let ?f = "\<lparr>name = ''y.mp3'', path = Some ''x/y.mp3'', fsize = Bytes 1000, url = None\<rparr>"
  let ?g = "\<lparr>name = ''y.mp3'', path = Some ''x/y.mp3'', fsize = Bytes 2000, url = None\<rparr>"
  have k1: "generateFileKey ?f = ''x/y.mp3_1000''" by code_simp
  have k2: "generateFileKey ?g = ''x/y.mp3_2000''" by code_simp
  have "generateFileKey ?f \<noteq> generateFileKey ?g"
    using generateFileKey_path_size [of ?f ?g, THEN conjunct2, THEN conjunct2] by simp
  with k1 k2 show ?thesis by blast
qed

section \<open>Cache lookup\<close>

lemma map_of_split_first:
  "map_of xs k = Some v \<Longrightarrow> \<exists>ys zs. xs = ys @ (k, v) # zs \<and> k \<notin> fst ` set ys"
proof (induction xs)
  case Nil
  then show ?case by simp
next
  case (Cons p xs)
  show ?case
  proof (cases "fst p = k")
    case True
    with Cons.prems have "p = (k, v)" by (cases p) simp
    then have "p # xs = [] @ (k, v) # xs \<and> k \<notin> fst ` set []" by simp
    then show ?thesis by blast
  next
    case False
    with Cons.prems have "map_of xs k = Some v" by (cases p) simp
    with Cons.IH obtain ys zs where "xs = ys @ (k, v) # zs" "k \<notin> fst ` set ys" by blast
    with False have "p # xs = (p # ys) @ (k, v) # zs \<and> k \<notin> fst ` set (p # ys)" by auto
    then show ?thesis by blast
  qed
qed

lemma update_split_first:
  "k \<notin> fst ` set ys \<Longrightarrow> AList.update k w (ys @ (k, v) # zs) = ys @ (k, w) # zs"
  by (induction ys) auto

text \<open>
  Claim C10. On a hit, \<open>getCachedAnalysis\<close> returns the entry's analysis and changes
  nothing but the \<open>lastAccessed\<close> field of the matched entry: the entries before and
  after it, its other fields, the version tag and the persisted item stay as they were.
  On a miss it returns \<open>null\<close> and the manager is unchanged.
\<close>

theorem getCachedAnalysis_frame:
  "(generateFileKey f \<notin> fst ` set (data (cache m)) \<longrightarrow> getCachedAnalysis m f now = (m, None)) \<and>
   (generateFileKey f \<in> fst ` set (data (cache m)) \<longrightarrow>
      (\<exists>ys e zs.
          data (cache m) = ys @ (generateFileKey f, e) # zs \<and>
          generateFileKey f \<notin> fst ` set ys \<and>
          getCachedAnalysis m f now =
            (m\<lparr>cache := (cache m)\<lparr>data := ys @ (generateFileKey f, e\<lparr>lastAccessed := now\<rparr>) # zs\<rparr>\<rparr>,
             Some (analysis e)) \<and>
          analysis (e\<lparr>lastAccessed := now\<rparr>) = analysis e \<and>
          cachedAt (e\<lparr>lastAccessed := now\<rparr>) = cachedAt e \<and>
          fileName (e\<lparr>lastAccessed := now\<rparr>) = fileName e \<and>
          entryPath (e\<lparr>lastAccessed := now\<rparr>) = entryPath e \<and>
          entrySize (e\<lparr>lastAccessed := now\<rparr>) = entrySize e))"
proof (intro conjI impI)
  assume "generateFileKey f \<notin> fst ` set (data (cache m))"
  then have "map_of (data (cache m)) (generateFileKey f) = None"
    by (simp add: map_of_eq_None_iff)
  then show "getCachedAnalysis m f now = (m, None)"
    by (simp add: getCachedAnalysis_def)
next
  assume "generateFileKey f \<in> fst ` set (data (cache m))"
  then obtain e where e: "map_of (data (cache m)) (generateFileKey f) = Some e"
    by (metis map_of_eq_None_iff not_Some_eq)
  then obtain ys zs where split: "data (cache m) = ys @ (generateFileKey f, e) # zs"
      and fresh: "generateFileKey f \<notin> fst ` set ys"
    using map_of_split_first by metis
  have "getCachedAnalysis m f now =
          (m\<lparr>cache := (cache m)\<lparr>data := ys @ (generateFileKey f, e\<lparr>lastAccessed := now\<rparr>) # zs\<rparr>\<rparr>,
           Some (analysis e))"
    using e fresh by (simp add: getCachedAnalysis_def split update_split_first)
  with split fresh show "\<exists>ys e zs.
          data (cache m) = ys @ (generateFileKey f, e) # zs \<and>
          generateFileKey f \<notin> fst ` set ys \<and>
          getCachedAnalysis m f now =
            (m\<lparr>cache := (cache m)\<lparr>data := ys @ (generateFileKey f, e\<lparr>lastAccessed := now\<rparr>) # zs\<rparr>\<rparr>,
             Some (analysis e)) \<and>
          analysis (e\<lparr>lastAccessed := now\<rparr>) = analysis e \<and>
          cachedAt (e\<lparr>lastAccessed := now\<rparr>) = cachedAt e \<and>
          fileName (e\<lparr>lastAccessed := now\<rparr>) = fileName e \<and>
          entryPath (e\<lparr>lastAccessed := now\<rparr>) = entryPath e \<and>
          entrySize (e\<lparr>lastAccessed := now\<rparr>) = entrySize e"
    by (intro exI [of _ ys] exI [of _ e] exI [of _ zs]) simp
qed

theorem getCachedAnalysis_frame_witness:
  "generateFileKey \<lparr>name = ''z.mp3'', path = Some ''x/z.mp3'', fsize = Bytes 7, url = None\<rparr>
     \<notin> fst ` set [(''a_1'', \<lparr>fileName = ''a'', entryPath = Some ''a'', entrySize = Bytes 1,
                               analysis = (5::nat), cachedAt = 1, lastAccessed = 2\<rparr>),
                      (''x/y.mp3_1000'', \<lparr>fileName = ''y.mp3'', entryPath = Some ''x/y.mp3'',
                               entrySize = Bytes 1000, analysis = 6, cachedAt = 3, lastAccessed = 4\<rparr>)] \<and>
   getCachedAnalysis
     \<lparr>cache = \<lparr>version = None, data =
        [(''a_1'', \<lparr>fileName = ''a'', entryPath = Some ''a'', entrySize = Bytes 1,
                    analysis = (5::nat), cachedAt = 1, lastAccessed = 2\<rparr>),
         (''x/y.mp3_1000'', \<lparr>fileName = ''y.mp3'', entryPath = Some ''x/y.mp3'',
                    entrySize = Bytes 1000, analysis = 6, cachedAt = 3, lastAccessed = 4\<rparr>)]\<rparr>,
      cacheVersion = Some ''1.0'', localStorage = None\<rparr>
     \<lparr>name = ''z.mp3'', path = Some ''x/z.mp3'', fsize = Bytes 7, url = None\<rparr> 9
   = (\<lparr>cache = \<lparr>version = None, data =
        [(''a_1'', \<lparr>fileName = ''a'', entryPath = Some ''a'', entrySize = Bytes 1,
                    analysis = (5::nat), cachedAt = 1, lastAccessed = 2\<rparr>),
         (''x/y.mp3_1000'', \<lparr>fileName = ''y.mp3'', entryPath = Some ''x/y.mp3'',
                    entrySize = Bytes 1000, analysis = 6, cachedAt = 3, lastAccessed = 4\<rparr>)]\<rparr>,
      cacheVersion = Some ''1.0'', localStorage = None\<rparr>, None) \<and>
   generateFileKey \<lparr>name = ''y.mp3'', path = Some ''x/y.mp3'', fsize = Bytes 1000, url = None\<rparr>
     \<in> fst ` set [(''a_1'', \<lparr>fileName = ''a'', entryPath = Some ''a'', entrySize = Bytes 1,
                               analysis = (5::nat), cachedAt = 1, lastAccessed = 2\<rparr>),
                      (''x/y.mp3_1000'', \<lparr>fileName = ''y.mp3'', entryPath = Some ''x/y.mp3'',
                               entrySize = Bytes 1000, analysis = 6, cachedAt = 3, lastAccessed = 4\<rparr>)] \<and>
   getCachedAnalysis
     \<lparr>cache = \<lparr>version = None, data =
        [(''a_1'', \<lparr>fileName = ''a'', entryPath = Some ''a'', entrySize = Bytes 1,
                    analysis = (5::nat), cachedAt = 1, lastAccessed = 2\<rparr>),
         (''x/y.mp3_1000'', \<lparr>fileName = ''y.mp3'', entryPath = Some ''x/y.mp3'',
                    entrySize = Bytes 1000, analysis = 6, cachedAt = 3, lastAccessed = 4\<rparr>)]\<rparr>,
      cacheVersion = Some ''1.0'', localStorage = None\<rparr>
     \<lparr>name = ''y.mp3'', path = Some ''x/y.mp3'', fsize = Bytes 1000, url = None\<rparr> 9
   = (\<lparr>cache = \<lparr>version = None, data =
        [(''a_1'', \<lparr>fileName = ''a'', entryPath = Some ''a'', entrySize = Bytes 1,
                    analysis = (5::nat), cachedAt = 1, lastAccessed = 2\<rparr>),
         (''x/y.mp3_1000'', \<lparr>fileName = ''y.mp3'', entryPath = Some ''x/y.mp3'',
                    entrySize = Bytes 1000, analysis = 6, cachedAt = 3, lastAccessed = 9\<rparr>)]\<rparr>,
      cacheVersion = Some ''1.0'', localStorage = None\<rparr>, Some 6)"
proof -
  let ?e1 = "\<lparr>fileName = ''a'', entryPath = Some ''a'', entrySize = Bytes 1,
               analysis = (5::nat), cachedAt = 1, lastAccessed = 2\<rparr>"
  let ?e2 = "\<lparr>fileName = ''y.mp3'', entryPath = Some ''x/y.mp3'',
               entrySize = Bytes 1000, analysis = (6::nat), cachedAt = 3, lastAccessed = 4\<rparr>"
  let ?m = "\<lparr>cache = \<lparr>version = None, data = [(''a_1'', ?e1), (''x/y.mp3_1000'', ?e2)]\<rparr>,
              cacheVersion = Some ''1.0'', localStorage = None\<rparr>"
  let ?f = "\<lparr>name = ''y.mp3'', path = Some ''x/y.mp3'', fsize = Bytes 1000, url = None\<rparr>"
  let ?g = "\<lparr>name = ''z.mp3'', path = Some ''x/z.mp3'', fsize = Bytes 7, url = None\<rparr>"
  have kf: "generateFileKey ?f = ''x/y.mp3_1000''" by code_simp
  have kg: "generateFileKey ?g = ''x/z.mp3_7''" by code_simp
  have miss_pre: "generateFileKey ?g \<notin> fst ` set (data (cache ?m))" by (simp add: kg)
  have hit_pre: "generateFileKey ?f \<in> fst ` set (data (cache ?m))" by (simp add: kf)
  from getCachedAnalysis_frame [of ?g ?m 9, THEN conjunct1] miss_pre
  have miss: "getCachedAnalysis ?m ?g 9 = (?m, None)" by blast
  from getCachedAnalysis_frame [of ?f ?m 9, THEN conjunct2] hit_pre
  obtain ys e zs where
      split: "data (cache ?m) = ys @ (generateFileKey ?f, e) # zs"
      and fresh: "generateFileKey ?f \<notin> fst ` set ys"
      and res: "getCachedAnalysis ?m ?f 9 =
        (?m\<lparr>cache := (cache ?m)\<lparr>data := ys @ (generateFileKey ?f, e\<lparr>lastAccessed := 9\<rparr>) # zs\<rparr>\<rparr>,
         Some (analysis e))"
    by blast
  from split fresh have "ys = [(''a_1'', ?e1)] \<and> e = ?e2 \<and> zs = []"
    by (cases ys; cases "tl ys") (auto simp: kf)
  with res have hit: "getCachedAnalysis ?m ?f 9 =
      (\<lparr>cache = \<lparr>version = None, data =
          [(''a_1'', ?e1), (''x/y.mp3_1000'', ?e2\<lparr>lastAccessed := 9\<rparr>)]\<rparr>,
        cacheVersion = Some ''1.0'', localStorage = None\<rparr>, Some 6)"
    by (simp add: kf)
  from miss_pre miss hit_pre hit show ?thesis by simp
qed


section \<open>Eviction and lookup: lemmas\<close>

lemma keepCount_eq: "keepCount = 350"
  by (simp add: keepCount_def maxCacheSize_def)

lemma pruneCache_data:
  "data (cache (pruneCache m)) = slice_last keepCount (sort_key (\<lambda>kv. lastAccessed (snd kv)) (data (cache m)))"
  by (simp add: pruneCache_def Let_def)

lemma pruneCache_other:
  "version (cache (pruneCache m)) = version (cache m)"
  "cacheVersion (pruneCache m) = cacheVersion m"
  "localStorage (pruneCache m) = localStorage m"
  by (simp_all add: pruneCache_def Let_def)

lemma slice_last_keep: "slice_last keepCount xs = drop (length xs - keepCount) xs"
  by (simp add: slice_last_def keepCount_eq)

lemma saveCache_cache_cases:
  "cache (saveCache env m) = cache m \<or> cache (saveCache env m) = cache (pruneCache m)
   \<or> cache (saveCache env m) = cache (pruneCache (pruneCache m))"
  by (auto simp: saveCache_def Let_def setItem_def split: option.splits js_error.splits sum.splits)

lemma saveCache_benign:
  assumes "byteLength env (Doc (cache m)) \<le> byteBudget"
    and "writeFails env (Doc (cache m)) \<noteq> Some QuotaExceededError"
  shows "cache (saveCache env m) = cache m" "cacheVersion (saveCache env m) = cacheVersion m"
  using assms
  by (auto simp: saveCache_def Let_def setItem_def split: option.splits js_error.splits sum.splits)

lemma update_fresh: "k \<notin> fst ` set xs \<Longrightarrow> AList.update k v xs = xs @ [(k, v)]"
  by (induction xs) auto

lemma sorted_hd_le:
  "sorted (map f ys) \<Longrightarrow> x \<in> set ys \<Longrightarrow> f (hd ys) \<le> f x"
  by (cases ys) auto


lemma distinct_keys_sort:
  "distinct (map fst (sort_key f xs)) = distinct (map fst xs)"
  by (simp add: distinct_map)

lemma distinct_keys_slice:
  "distinct (map fst xs) \<Longrightarrow> distinct (map fst (slice_last k (sort_key f xs)))"
  by (simp add: slice_last_def distinct_keys_sort flip: drop_map)

lemma set_slice_subset: "set (slice_last k (sort_key f xs)) \<subseteq> set xs"
  using set_drop_subset [of "length xs - k" "sort_key f xs"] by (auto simp: slice_last_def)

lemma prune_subset: "set (data (cache (pruneCache m))) \<subseteq> set (data (cache m))"
  by (simp add: pruneCache_data set_slice_subset)

lemma save_subset: "set (data (cache (saveCache env m))) \<subseteq> set (data (cache m))"
  using saveCache_cache_cases [of env m] prune_subset [of m] prune_subset [of "pruneCache m"]
  by auto

lemma update_mem: "(k, v) \<in> set (AList.update k v xs)"
  by (induction xs) auto

lemma update_others: "kv \<in> set (AList.update k v xs) \<Longrightarrow> fst kv \<noteq> k \<Longrightarrow> kv \<in> set xs"
  by (induction xs) (auto split: if_splits)

lemma setCachedAnalysis_unfold:
  "setCachedAnalysis env m f a t1 t2 =
     (let m1 = m\<lparr>cache := (cache m)\<lparr>data := AList.update (generateFileKey f) (new_entry f a t1 t2) (data (cache m))\<rparr>\<rparr>
      in saveCache env (if length (data (cache m1)) > maxCacheSize then pruneCache m1 else m1))"
  by (simp add: setCachedAnalysis_def new_entry_def Let_def)

lemma get_result:
  "snd (getCachedAnalysis m f now) = map_option analysis (map_of (data (cache m)) (generateFileKey f))"
  by (simp add: getCachedAnalysis_def Let_def split: option.splits)

lemma get_distinct:
  "distinct (map fst (data (cache m))) \<Longrightarrow> distinct (map fst (data (cache (fst (getCachedAnalysis m f now)))))"
  by (simp add: getCachedAnalysis_def Let_def distinct_update split: option.splits)

lemma key_same: "path f' = path f \<Longrightarrow> fsize f' = fsize f \<Longrightarrow> generateFileKey f' = generateFileKey f"
  by (simp add: generateFileKey_def)




lemma set_calm_full:
  assumes calm: "\<forall>t. byteLength env t \<le> byteBudget \<and> writeFails env t \<noteq> Some QuotaExceededError"
    and fresh: "generateFileKey f \<notin> fst ` set (data (cache m))"
    and full: "length (data (cache m)) = maxCacheSize"
  shows "data (cache (setCachedAnalysis env m f a t1 t2)) =
           slice_last keepCount (sort_key (\<lambda>kv. lastAccessed (snd kv))
             (data (cache m) @ [(generateFileKey f, new_entry f a t1 t2)]))"
  using calm fresh full
  by (simp add: setCachedAnalysis_unfold Let_def saveCache_benign update_fresh pruneCache_data)


lemma sample_key_inj: "generateFileKey (sample_file i) = generateFileKey (sample_file j) \<Longrightarrow> i = j"
  by (auto simp: generateFileKey_def sample_file_def size_str_def dest: decimal_inj)

lemma sample_keys: "map fst (map call_entry (map sample_call ns)) = map (\<lambda>i. generateFileKey (sample_file i)) ns"
  by (simp add: call_entry_def sample_call_def comp_def)


lemma sample_keys_distinct: "distinct ns \<Longrightarrow> distinct (map (\<lambda>i. generateFileKey (sample_file i)) ns)"
  by (simp add: distinct_map inj_on_def) (use sample_key_inj in blast)


lemma late_key_fresh: "generateFileKey late_file \<noteq> generateFileKey (sample_file i)"
  by (simp add: generateFileKey_def late_file_def sample_file_def path_str_def)

lemma calm_env_calm:
  "\<forall>t. byteLength calm_env t \<le> byteBudget \<and> writeFails calm_env t \<noteq> Some QuotaExceededError"
  by (simp add: calm_env_def)

lemma new_manager_fresh:
  "new_CacheManager None = \<lparr>cache = \<lparr>version = None, data = []\<rparr>, cacheVersion = Some ''1.0'', localStorage = None\<rparr>"
  by (simp add: new_CacheManager_def loadCache_def)



lemma oldest_dropped:
  fixes xs :: "(string \<times> 'a cache_entry) list"
  assumes mem: "(k, e) \<in> set xs"
    and oldest: "\<forall>kv\<in>set xs. fst kv \<noteq> k \<longrightarrow> lastAccessed e < lastAccessed (snd kv)"
    and dist: "distinct (map fst xs)"
    and big: "keepCount < length xs"
  shows "k \<notin> fst ` set (slice_last keepCount (sort_key (\<lambda>kv. lastAccessed (snd kv)) xs))"
proof -
  let ?f = "\<lambda>kv::string \<times> 'a cache_entry. lastAccessed (snd kv)"
  let ?ys = "sort_key ?f xs"
  from mem have ne: "?ys \<noteq> []" by (metis empty_iff empty_set set_sort)
  then have hdmem: "hd ?ys \<in> set xs" by (metis hd_in_set set_sort)
  have hd: "hd ?ys = (k, e)"
  proof (rule ccontr)
    assume neq: "hd ?ys \<noteq> (k, e)"
    have "fst (hd ?ys) \<noteq> k"
    proof
      assume "fst (hd ?ys) = k"
      with hdmem mem dist have "hd ?ys = (k, e)"
        by (metis eq_key_imp_eq_value prod.collapse)
      with neq show False by simp
    qed
    with oldest hdmem have "lastAccessed e < ?f (hd ?ys)" by blast
    moreover have "?f (hd ?ys) \<le> ?f (k, e)"
      by (rule sorted_hd_le) (use mem in simp_all)
    ultimately show False by simp
  qed
  with ne have ys: "?ys = (k, e) # tl ?ys" by (metis list.collapse)
  have "distinct (map fst ?ys)" using dist by (simp add: distinct_keys_sort)
  with ys have notin: "k \<notin> fst ` set (tl ?ys)" by (metis distinct.simps(2) fst_conv list.simps(9) list.set_map)
  from big obtain n where n: "length ?ys - keepCount = Suc n"
    by (metis Suc_diff_Suc length_sort)
  have "drop (Suc n) ?ys = drop n (tl ?ys)" by (simp add: drop_Suc)
  then have "set (drop (length ?ys - keepCount) ?ys) \<subseteq> set (tl ?ys)"
    unfolding n by (simp add: set_drop_subset)
  with notin show ?thesis by (auto simp: slice_last_keep)
qed

lemma full_manager_keys: "map fst (data (cache full_manager)) = map (\<lambda>i. generateFileKey (sample_file i)) [0..<500]"
  unfolding full_manager_def by (simp only: cache_manager.simps cache_store.simps sample_keys)

lemma full_manager_distinct: "distinct (map fst (data (cache full_manager)))"
  unfolding full_manager_keys by (rule sample_keys_distinct) simp

lemma full_manager_length: "length (data (cache full_manager)) = maxCacheSize"
  by (simp add: full_manager_def maxCacheSize_def)

lemma full_manager_stamps:
  "kv \<in> set (data (cache full_manager)) \<Longrightarrow> 1000 \<le> lastAccessed (snd kv) \<and> lastAccessed (snd kv) < 1500"
  by (auto simp: full_manager_def call_entry_def sample_call_def new_entry_def simp del: upt_rec_numeral)

lemma late_key_not_full: "generateFileKey late_file \<notin> fst ` set (data (cache full_manager))"
proof -
  have "generateFileKey late_file \<notin> set (map fst (data (cache full_manager)))"
    unfolding full_manager_keys using late_key_fresh by auto
  then show ?thesis by simp
qed







lemma prune_length: "length (data (cache (pruneCache m))) = min keepCount (length (data (cache m)))"
  by (simp add: pruneCache_data slice_last_keep)

lemma prune_sorted_small:
  assumes "sorted (map (\<lambda>kv. lastAccessed (snd kv)) (data (cache m)))"
    and "length (data (cache m)) \<le> keepCount"
  shows "pruneCache m = m"
  using assms by (simp add: pruneCache_def Let_def sort_key_id_if_sorted slice_last_keep)

lemma save_sorted_small:
  assumes "sorted (map (\<lambda>kv. lastAccessed (snd kv)) (data (cache m)))"
    and "length (data (cache m)) \<le> keepCount"
  shows "cache (saveCache env m) = cache m"
  using saveCache_cache_cases [of env m] prune_sorted_small [OF assms] by auto

lemma set_sorted_small:
  assumes fresh: "generateFileKey f \<notin> fst ` set (data (cache m))"
    and small: "length (data (cache m)) < keepCount"
    and old: "list_all (\<lambda>kv. lastAccessed (snd kv) \<le> t2) (data (cache m))"
    and sorted: "sorted (map (\<lambda>kv. lastAccessed (snd kv)) (data (cache m)))"
  shows "data (cache (setCachedAnalysis env m f a t1 t2)) =
           data (cache m) @ [(generateFileKey f, new_entry f a t1 t2)]"
proof -
  let ?m1 = "m\<lparr>cache := (cache m)\<lparr>data := data (cache m) @ [(generateFileKey f, new_entry f a t1 t2)]\<rparr>\<rparr>"
  have "sorted (map (\<lambda>kv. lastAccessed (snd kv)) (data (cache ?m1)))"
    using old sorted by (auto simp: sorted_append list_all_iff new_entry_def)
  moreover have "length (data (cache ?m1)) \<le> keepCount" using small by simp
  ultimately have "cache (saveCache env ?m1) = cache ?m1" by (rule save_sorted_small)
  moreover have "\<not> maxCacheSize < length (data (cache ?m1))"
    using small by (simp add: keepCount_eq maxCacheSize_def)
  ultimately show ?thesis
    using fresh by (simp add: setCachedAnalysis_unfold Let_def update_fresh)
qed

lemma sample_key_eq [simp]: "(generateFileKey (sample_file i) = generateFileKey (sample_file j)) = (i = j)"
  using sample_key_inj by auto

lemma new_manager_data [simp]: "data (cache (new_CacheManager None)) = []"
  by (simp add: new_manager_fresh)

lemma kept_safely_lookup: "kept_safely k e xs \<Longrightarrow> map_of xs k = Some e"
  by (simp add: kept_safely_def)

lemma insort_key_end:
  "\<forall>z\<in>set s. f z < f x \<Longrightarrow> insort_key f x s = s @ [x]"
  by (induction s) auto

lemma insort_key_snoc:
  "f y \<le> f x \<Longrightarrow> insort_key f y (s @ [x]) = insort_key f y s @ [x]"
  by (induction s) auto

lemma sort_key_newest_last:
  "\<forall>y\<in>set ys. f y \<le> f x \<Longrightarrow> \<forall>z\<in>set zs. f z < f x \<Longrightarrow>
   sort_key f (ys @ x # zs) = sort_key f (ys @ zs) @ [x]"
proof (induction ys)
  case Nil
  then show ?case by (simp add: insort_key_end)
next
  case (Cons y ys)
  then show ?case by (simp add: insort_key_snoc)
qed

lemma others_single:
  assumes "distinct (map fst xs)" "(k, e) \<in> set xs"
  shows "length xs = Suc (length (filter (\<lambda>kv. fst kv \<noteq> k) xs))"
  using assms
proof (induction xs)
  case Nil
  then show ?case by simp
next
  case (Cons p xs)
  show ?case
  proof (cases "fst p = k")
    case True
    with Cons.prems have "k \<notin> fst ` set xs" by auto
    then have "filter (\<lambda>kv. fst kv \<noteq> k) xs = xs" by (auto simp: filter_id_conv)
    with True show ?thesis by simp
  next
    case False
    with Cons.prems have "(k, e) \<in> set xs" "distinct (map fst xs)" by auto
    with Cons.IH False show ?thesis by simp
  qed
qed

lemma kept_safely_slice:
  fixes xs :: "(string \<times> 'a cache_entry) list"
  assumes "kept_safely k e xs"
  shows "kept_safely k e (slice_last keepCount (sort_key (\<lambda>kv. lastAccessed (snd kv)) xs))"
proof -
  let ?f = "\<lambda>kv::string \<times> 'a cache_entry. lastAccessed (snd kv)"
  let ?rs = "slice_last keepCount (sort_key ?f xs)"
  from assms have d: "distinct (map fst xs)" and m: "(k, e) \<in> set xs" by (simp_all add: kept_safely_def)
  have dr: "distinct (map fst ?rs)" using d by (rule distinct_keys_slice)
  from assms consider
      (small) "length (filter (\<lambda>kv. fst kv \<noteq> k) xs) < keepCount"
    | (newest) ys zs where "xs = ys @ (k, e) # zs"
        "list_all (\<lambda>kv. ?f kv \<le> lastAccessed e) ys" "list_all (\<lambda>kv. ?f kv < lastAccessed e) zs"
    by (auto simp: kept_safely_def)
  then show ?thesis
  proof cases
    case small
    with others_single [OF d m] have "length xs \<le> keepCount" by simp
    then have rs: "?rs = sort_key ?f xs" by (simp add: slice_last_keep)
    have "length (filter (\<lambda>kv. fst kv \<noteq> k) (sort_key ?f xs)) = length (filter (\<lambda>kv. fst kv \<noteq> k) xs)"
      by (simp add: filter_sort)
    with small m dr show ?thesis unfolding rs kept_safely_def by simp
  next
    case newest
    have s: "sort_key ?f xs = sort_key ?f (ys @ zs) @ [(k, e)]"
      unfolding newest(1) using newest(2,3) by (intro sort_key_newest_last) (auto simp: list_all_iff)
    let ?n = "length xs - keepCount"
    have "?n \<le> length (sort_key ?f (ys @ zs))"
      by (simp add: newest(1) keepCount_eq)
    moreover have "?rs = drop ?n (sort_key ?f xs)"
      by (simp add: slice_last_keep)
    ultimately have rs: "?rs = drop ?n (sort_key ?f (ys @ zs)) @ [(k, e)]"
      by (simp only: s drop_append) simp
    have "\<forall>kv\<in>set (drop ?n (sort_key ?f (ys @ zs))). ?f kv \<le> lastAccessed e"
    proof
      fix kv assume "kv \<in> set (drop ?n (sort_key ?f (ys @ zs)))"
      then have "kv \<in> set (sort_key ?f (ys @ zs))" by (rule in_set_dropD)
      then have "kv \<in> set ys \<union> set zs" by simp
      with newest(2,3) show "?f kv \<le> lastAccessed e" by (auto simp: list_all_iff less_imp_le)
    qed
    then have "\<exists>ys' zs'. ?rs = ys' @ (k, e) # zs' \<and>
          list_all (\<lambda>kv. ?f kv \<le> lastAccessed e) ys' \<and> list_all (\<lambda>kv. ?f kv < lastAccessed e) zs'"
      by (intro exI [of _ "drop ?n (sort_key ?f (ys @ zs))"] exI [of _ "[]"]) (simp add: rs list_all_iff)
    moreover have "(k, e) \<in> set ?rs" by (simp add: rs)
    ultimately show ?thesis using dr unfolding kept_safely_def by blast
  qed
qed

lemma kept_safely_prune:
  "kept_safely k e (data (cache m)) \<Longrightarrow> kept_safely k e (data (cache (pruneCache m)))"
  by (simp add: pruneCache_data kept_safely_slice)

lemma kept_safely_save:
  assumes "kept_safely k e (data (cache m))"
  shows "kept_safely k e (data (cache (saveCache env m)))"
  using saveCache_cache_cases [of env m] assms kept_safely_prune [of k e m]
    kept_safely_prune [of k e "pruneCache m"] by auto

lemma update_decompose:
  "\<exists>ys zs. AList.update k v xs = ys @ (k, v) # zs \<and> k \<notin> fst ` set ys \<and>
     ys = takeWhile (\<lambda>kv. fst kv \<noteq> k) xs \<and> zs = tl (dropWhile (\<lambda>kv. fst kv \<noteq> k) xs)"
  by (induction xs) auto

lemma update_filter_others:
  "filter (\<lambda>kv. fst kv \<noteq> k) (AList.update k v xs) = filter (\<lambda>kv. fst kv \<noteq> k) xs"
  by (induction xs) auto

lemma update_kept_safely:
  assumes d: "distinct (map fst xs)" and safe: "safe_to_set k (lastAccessed e) xs"
  shows "kept_safely k e (AList.update k e xs)"
proof -
  obtain ys zs where u: "AList.update k e xs = ys @ (k, e) # zs" and fresh: "k \<notin> fst ` set ys"
    and ys: "ys = takeWhile (\<lambda>kv. fst kv \<noteq> k) xs" and zs: "zs = tl (dropWhile (\<lambda>kv. fst kv \<noteq> k) xs)"
    using update_decompose [of k e xs] by blast
  have du: "distinct (map fst (AList.update k e xs))" using d by (rule distinct_update)
  have mem: "(k, e) \<in> set (AList.update k e xs)" by (rule update_mem)
  from safe show ?thesis unfolding safe_to_set_def
  proof
    assume "length (filter (\<lambda>kv. fst kv \<noteq> k) xs) < keepCount"
    then show ?thesis using du mem by (simp add: kept_safely_def update_filter_others)
  next
    assume clock: "list_all (\<lambda>kv. fst kv = k \<or> lastAccessed (snd kv) \<le> lastAccessed e) xs \<and>
       list_all (\<lambda>kv. lastAccessed (snd kv) < lastAccessed e) (tl (dropWhile (\<lambda>kv. fst kv \<noteq> k) xs))"
    have "list_all (\<lambda>kv. lastAccessed (snd kv) \<le> lastAccessed e) ys"
    proof -
      have "\<forall>kv\<in>set ys. fst kv \<noteq> k \<and> kv \<in> set xs"
        unfolding ys by (auto dest: set_takeWhileD)
      with clock show ?thesis by (auto simp: list_all_iff)
    qed
    moreover have "list_all (\<lambda>kv. lastAccessed (snd kv) < lastAccessed e) zs"
      using clock by (simp add: zs)
    ultimately show ?thesis using du mem u unfolding kept_safely_def by blast
  qed
qed

lemma set_kept_safely:
  assumes d: "distinct (map fst (data (cache m)))"
    and safe: "safe_to_set (generateFileKey f) t2 (data (cache m))"
  shows "kept_safely (generateFileKey f) (new_entry f a t1 t2)
           (data (cache (setCachedAnalysis env m f a t1 t2)))"
proof -
  let ?k = "generateFileKey f" and ?e = "new_entry f a t1 t2"
  let ?m1 = "m\<lparr>cache := (cache m)\<lparr>data := AList.update ?k ?e (data (cache m))\<rparr>\<rparr>"
  have la: "lastAccessed ?e = t2" by (simp add: new_entry_def)
  have "kept_safely ?k ?e (data (cache ?m1))"
    using update_kept_safely [OF d, of ?k ?e] safe by (simp add: la)
  then have "kept_safely ?k ?e (data (cache (if length (data (cache ?m1)) > maxCacheSize then pruneCache ?m1 else ?m1)))"
    using kept_safely_prune [of ?k ?e ?m1] by simp
  then show ?thesis
    unfolding setCachedAnalysis_unfold Let_def by (rule kept_safely_save)
qed

lemma get_data:
  "data (cache (fst (getCachedAnalysis m f now))) =
     (case map_of (data (cache m)) (generateFileKey f) of
        None \<Rightarrow> data (cache m)
      | Some e \<Rightarrow> AList.update (generateFileKey f) (e\<lparr>lastAccessed := now\<rparr>) (data (cache m)))"
  by (simp add: getCachedAnalysis_def Let_def split: option.splits)

lemma update_same_shape:
  "k \<notin> fst ` set ys \<Longrightarrow> AList.update k w (ys @ (k, v) # zs) = ys @ (k, w) # zs"
  by (induction ys) auto

lemma dropWhile_split:
  "k \<notin> fst ` set ys \<Longrightarrow> dropWhile (\<lambda>kv. fst kv \<noteq> k) (ys @ (k, v) # zs) = (k, v) # zs"
  by (induction ys) auto

lemma safe_after_round:
  assumes kept: "kept_safely k e xs" and later: "lastAccessed e \<le> t'"
  shows "safe_to_set k t' (AList.update k e' xs)"
proof -
  from kept have d: "distinct (map fst xs)" and m: "(k, e) \<in> set xs" by (simp_all add: kept_safely_def)
  from kept consider
      (small) "length (filter (\<lambda>kv. fst kv \<noteq> k) xs) < keepCount"
    | (newest) ys zs where "xs = ys @ (k, e) # zs"
        "list_all (\<lambda>kv. lastAccessed (snd kv) \<le> lastAccessed e) ys"
        "list_all (\<lambda>kv. lastAccessed (snd kv) < lastAccessed e) zs"
    by (auto simp: kept_safely_def)
  then show ?thesis
  proof cases
    case small
    then show ?thesis by (simp add: safe_to_set_def update_filter_others)
  next
    case newest
    from d have fresh: "k \<notin> fst ` set ys" unfolding newest(1) by auto
    have u: "AList.update k e' xs = ys @ (k, e') # zs"
      unfolding newest(1) using fresh by (rule update_same_shape)
    have "list_all (\<lambda>kv. fst kv = k \<or> lastAccessed (snd kv) \<le> t') (ys @ (k, e') # zs)"
      using newest(2,3) later by (auto simp: list_all_iff)
    moreover have "list_all (\<lambda>kv. lastAccessed (snd kv) < t') (tl (dropWhile (\<lambda>kv. fst kv \<noteq> k) (ys @ (k, e') # zs)))"
      using newest(3) later fresh by (auto simp: dropWhile_split list_all_iff)
    ultimately show ?thesis unfolding u safe_to_set_def by blast
  qed
qed


section \<open>Cache round trip\<close>

text \<open>
  Claim C8, as amended. Let the keys of the store be distinct (as those of an object
  are), and let the store hold fewer than \<open>keepCount\<close> entries under other keys, or let
  no entry under another key have a \<open>lastAccessed\<close> later than the clock reading \<open>t2\<close> of
  the call, those stored behind the file's own entry being strictly earlier. Then
  \<open>setCachedAnalysis\<close> for a file followed by \<open>getCachedAnalysis\<close> for any file with the
  same path and size returns exactly the analysis that was stored, whatever eviction the
  call runs; and storing the same value again at a reading \<open>t2' \<ge> t2\<close> and reading it
  again returns it again.
\<close>

theorem cache_round_trip:
  assumes d: "distinct (map fst (data (cache m)))"
    and safe: "length (filter (\<lambda>kv. fst kv \<noteq> generateFileKey f) (data (cache m))) < keepCount \<or>
      (list_all (\<lambda>kv. fst kv = generateFileKey f \<or> lastAccessed (snd kv) \<le> t2) (data (cache m)) \<and>
       list_all (\<lambda>kv. lastAccessed (snd kv) < t2)
         (tl (dropWhile (\<lambda>kv. fst kv \<noteq> generateFileKey f) (data (cache m)))))"
    and same: "path f' = path f" "fsize f' = fsize f"
    and later: "t2 \<le> t2'"
  shows "snd (getCachedAnalysis (setCachedAnalysis env m f a t1 t2) f' now) = Some a \<and>
         snd (getCachedAnalysis
                (setCachedAnalysis env (fst (getCachedAnalysis (setCachedAnalysis env m f a t1 t2) f' now))
                   f a t1' t2') f' now') = Some a"
proof -
  let ?k = "generateFileKey f"
  let ?ms = "setCachedAnalysis env m f a t1 t2"
  let ?mg = "fst (getCachedAnalysis ?ms f' now)"
  let ?e = "new_entry f a t1 t2"
  have k: "generateFileKey f' = ?k" using same by (rule key_same)
  have kept: "kept_safely ?k ?e (data (cache ?ms))"
    using d safe by (intro set_kept_safely) (simp_all add: safe_to_set_def)
  then have first: "snd (getCachedAnalysis ?ms f' now) = Some a"
    by (simp add: get_result k kept_safely_lookup new_entry_def)
  have dg: "data (cache ?mg) = AList.update ?k (?e\<lparr>lastAccessed := now\<rparr>) (data (cache ?ms))"
    using kept by (simp add: get_data k kept_safely_lookup)
  have d2: "distinct (map fst (data (cache ?mg)))"
    using kept unfolding dg by (intro distinct_update) (simp add: kept_safely_def)
  have "lastAccessed ?e \<le> t2'" using later by (simp add: new_entry_def)
  with kept have safe2: "safe_to_set ?k t2' (data (cache ?mg))"
    unfolding dg by (rule safe_after_round)
  have "kept_safely ?k (new_entry f a t1' t2') (data (cache (setCachedAnalysis env ?mg f a t1' t2')))"
    using d2 safe2 by (rule set_kept_safely)
  then have "snd (getCachedAnalysis (setCachedAnalysis env ?mg f a t1' t2') f' now') = Some a"
    by (simp add: get_result k kept_safely_lookup new_entry_def)
  with first show ?thesis by simp
qed

text \<open>
  The theorem at the full store of 500 entries, last accessed at readings 1000 to 1499:
  a call in the same millisecond as the last of them (reading 1499) stores entry 501,
  evicts, and the value is read back; so it is after a second call at that reading.
\<close>

theorem cache_round_trip_witness:
  "distinct (map fst (data (cache full_manager))) \<and>
   \<not> length (filter (\<lambda>kv. fst kv \<noteq> generateFileKey late_file) (data (cache full_manager))) < keepCount \<and>
   snd (getCachedAnalysis (setCachedAnalysis calm_env full_manager late_file 7 1499 1499) late_file 1500) = Some 7 \<and>
   snd (getCachedAnalysis
          (setCachedAnalysis calm_env
             (fst (getCachedAnalysis (setCachedAnalysis calm_env full_manager late_file 7 1499 1499) late_file 1500))
             late_file 7 1499 1499) late_file 1500) = Some 7"
proof -
  have nk: "\<forall>kv\<in>set (data (cache full_manager)). fst kv \<noteq> generateFileKey late_file"
    using late_key_not_full by force
  have others: "filter (\<lambda>kv. fst kv \<noteq> generateFileKey late_file) (data (cache full_manager))
                  = data (cache full_manager)"
    using nk by (simp add: filter_id_conv)
  have big: "\<not> length (filter (\<lambda>kv. fst kv \<noteq> generateFileKey late_file) (data (cache full_manager))) < keepCount"
    by (simp add: others full_manager_length keepCount_eq maxCacheSize_def)
  have old: "list_all (\<lambda>kv. fst kv = generateFileKey late_file \<or> lastAccessed (snd kv) \<le> 1499)
               (data (cache full_manager))"
    using full_manager_stamps by (fastforce simp: list_all_iff)
  have dw: "dropWhile (\<lambda>kv. fst kv \<noteq> generateFileKey late_file) (data (cache full_manager)) = []"
    using nk by (simp add: dropWhile_eq_Nil_conv)
  have behind: "list_all (\<lambda>kv. lastAccessed (snd kv) < 1499)
      (tl (dropWhile (\<lambda>kv. fst kv \<noteq> generateFileKey late_file) (data (cache full_manager))))"
    unfolding dw by simp
  have later: "(1499::nat) \<le> 1499" by simp
  from cache_round_trip [OF full_manager_distinct disjI2 [OF conjI [OF old behind]] refl refl later,
      of calm_env 7 1499 1500 1499 1500]
    full_manager_distinct big
  show ?thesis by blast
qed

text \<open>
  Claim C8 as stated, for every store, fails: the same full store, and a call whose
  clock reading 5 is earlier than every stored \<open>lastAccessed\<close>. The store grows to 501
  entries, \<open>pruneCache\<close> sorts the new entry first and drops it with the oldest 151, and
  the lookup that follows misses.
\<close>

theorem cache_round_trip_counterexample:
  "snd (getCachedAnalysis (setCachedAnalysis calm_env full_manager late_file 7 5 5) late_file 6) = None"
proof -
  let ?k = "generateFileKey late_file" and ?e = "new_entry late_file (7::nat) 5 5"
  let ?xs = "data (cache full_manager) @ [(?k, ?e)]"
  have d: "data (cache (setCachedAnalysis calm_env full_manager late_file 7 5 5)) =
             slice_last keepCount (sort_key (\<lambda>kv. lastAccessed (snd kv)) ?xs)"
    using calm_env_calm late_key_not_full full_manager_length by (rule set_calm_full)
  have "?k \<notin> fst ` set (slice_last keepCount (sort_key (\<lambda>kv. lastAccessed (snd kv)) ?xs))"
  proof (rule oldest_dropped)
    show "(?k, ?e) \<in> set ?xs" by simp
    show "\<forall>kv\<in>set ?xs. fst kv \<noteq> ?k \<longrightarrow> lastAccessed ?e < lastAccessed (snd kv)"
      using full_manager_stamps by (fastforce simp: new_entry_def)
    show "distinct (map fst ?xs)"
      using full_manager_distinct late_key_not_full by simp
    show "keepCount < length ?xs"
      by (simp add: full_manager_length keepCount_eq maxCacheSize_def)
  qed
  then have "map_of (data (cache (setCachedAnalysis calm_env full_manager late_file 7 5 5))) ?k = None"
    unfolding d by (simp add: map_of_eq_None_iff)
  then show ?thesis by (simp add: get_result)
qed

section \<open>Eviction bound and retention\<close>




section \<open>Persistence-size policy\<close>

text \<open>
  Claim C7, the code at a store over the byte budget. \<open>saveCache\<close> serialises the store
  of 351 entries, finds the text over the budget and prunes the store in memory to 350
  entries, and then writes the text it serialised before pruning: the persisted item
  is the store of 351 entries, not the serialisation of the store after eviction. (Only
  the handler of \<open>QuotaExceededError\<close> serialises again before its one retry.)
\<close>

theorem saveCache_writes_text_serialized_before_eviction:
  "length (data (cache crowded_manager)) = 351 \<and>
   byteBudget < byteLength tight_env (Doc (cache crowded_manager)) \<and>
   localStorage (saveCache tight_env crowded_manager) = Some (Doc (cache crowded_manager)) \<and>
   length (data (cache (saveCache tight_env crowded_manager))) = 350 \<and>
   localStorage (saveCache tight_env crowded_manager) \<noteq> Some (Doc (cache (saveCache tight_env crowded_manager)))"
proof -
  have len: "length (data (cache crowded_manager)) = 351" by (simp add: crowded_manager_def)
  have over: "byteBudget < byteLength tight_env (Doc (cache crowded_manager))"
    by (simp add: tight_env_def stored_entries_def len byteBudget_def)
  have save: "saveCache tight_env crowded_manager
                = (pruneCache crowded_manager)\<lparr>localStorage := Some (Doc (cache crowded_manager))\<rparr>"
    using over by (simp add: saveCache_def Let_def setItem_def) (simp add: tight_env_def)
  have kept: "length (data (cache (saveCache tight_env crowded_manager))) = 350"
    by (simp add: save prune_length len keepCount_eq)
  have written: "localStorage (saveCache tight_env crowded_manager) = Some (Doc (cache crowded_manager))"
    by (simp add: save)
  have "cache crowded_manager \<noteq> cache (saveCache tight_env crowded_manager)"
    using len kept by auto
  with len over written kept show ?thesis by simp
qed

section \<open>Loading a persisted store\<close>

text \<open>
  Claim C5, the code at two persisted items. The constructor calls \<open>loadCache\<close> before
  it assigns \<open>cacheVersion\<close>, so the version check compares with \<^verbatim>\<open>undefined\<close>. An item
  without a version tag, which differs from the running version \<open>1.0\<close>, is loaded with
  all its entries and stays in storage. An item tagged \<open>0.9\<close> is discarded and removed,
  but the version of the resulting empty store is \<^verbatim>\<open>undefined\<close>, not the running version.
\<close>

theorem version_check_reads_unassigned_field:
  "cacheVersion (new_CacheManager (Some unversioned_item)) = Some ''1.0'' \<and>
   cache (new_CacheManager (Some unversioned_item)) = \<lparr>version = None, data = [call_entry (sample_call 0)]\<rparr> \<and>
   localStorage (new_CacheManager (Some unversioned_item)) = Some unversioned_item \<and>
   cacheVersion (new_CacheManager (Some old_version_item)) = Some ''1.0'' \<and>
   cache (new_CacheManager (Some old_version_item)) = \<lparr>version = None, data = []\<rparr> \<and>
   localStorage (new_CacheManager (Some old_version_item)) = None"
  by (simp add: new_CacheManager_def loadCache_def clearCache_def unversioned_item_def old_version_item_def)

section \<open>Worker channel: lemmas\<close>

lemma settle_fields [simp]:
  "worker (settle s i x) = worker s" "isInitialized (settle s i x) = isInitialized s"
  "messageId (settle s i x) = messageId s" "pendingMessages (settle s i x) = pendingMessages s"
  "timers (settle s i x) = timers s" "posted (settle s i x) = posted s"
  "clock (settle s i x) = clock s" "randomCalls (settle s i x) = randomCalls s"
  by (simp_all add: settle_def)

lemma settle_promises:
  "promises (settle s i x) j = (if j = i \<and> promises s i = None then Some x else promises s j)"
  by (simp add: settle_def)

lemma timeout_callback_fields [simp]:
  "worker (timeout_callback s i) = worker s" "isInitialized (timeout_callback s i) = isInitialized s"
  "messageId (timeout_callback s i) = messageId s"
  "timers (timeout_callback s i) = timers s" "posted (timeout_callback s i) = posted s"
  "clock (timeout_callback s i) = clock s" "randomCalls (timeout_callback s i) = randomCalls s"
  by (simp_all add: timeout_callback_def)

lemma timeout_callback_pending:
  "pendingMessages (timeout_callback s i) = removeAll i (pendingMessages s)"
  by (simp add: timeout_callback_def)

lemma timeout_callback_promises:
  "promises (timeout_callback s i) j =
     (if j = i \<and> i \<in> set (pendingMessages s) \<and> promises s i = None
      then Some (Rejected timeout_error) else promises s j)"
  by (simp add: timeout_callback_def settle_promises)

lemma callbacks_fields [simp]:
  "worker (foldl timeout_callback s js) = worker s"
  "isInitialized (foldl timeout_callback s js) = isInitialized s"
  "messageId (foldl timeout_callback s js) = messageId s"
  "timers (foldl timeout_callback s js) = timers s" "posted (foldl timeout_callback s js) = posted s"
  "clock (foldl timeout_callback s js) = clock s" "randomCalls (foldl timeout_callback s js) = randomCalls s"
  by (induction js arbitrary: s; simp)+

lemma callbacks_pending:
  "set (pendingMessages (foldl timeout_callback s js)) = set (pendingMessages s) - set js"
  by (induction js arbitrary: s) (auto simp: timeout_callback_pending)

lemma callbacks_promises_other:
  "i \<notin> set js \<Longrightarrow> promises (foldl timeout_callback s js) i = promises s i"
  by (induction js arbitrary: s) (auto simp: timeout_callback_promises)

lemma callbacks_promises_settled:
  "promises s i = Some x \<Longrightarrow> promises (foldl timeout_callback s js) i = Some x"
proof (induction js arbitrary: s)
  case Nil
  then show ?case by simp
next
  case (Cons j js)
  from Cons.prems have "promises (timeout_callback s j) i = Some x"
    by (auto simp: timeout_callback_promises)
  then show ?case using Cons.IH by simp
qed

lemma callbacks_promises_due:
  "i \<in> set js \<Longrightarrow> i \<in> set (pendingMessages s) \<Longrightarrow> promises s i = None \<Longrightarrow>
   promises (foldl timeout_callback s js) i = Some (Rejected timeout_error)"
proof (induction js arbitrary: s)
  case Nil
  then show ?case by simp
next
  case (Cons j js)
  show ?case
  proof (cases "j = i")
    case True
    with Cons.prems have "promises (timeout_callback s j) i = Some (Rejected timeout_error)"
      by (simp add: timeout_callback_promises)
    then show ?thesis by (simp add: callbacks_promises_settled)
  next
    case False
    with Cons.prems have "i \<in> set js" "i \<in> set (pendingMessages (timeout_callback s j))"
      "promises (timeout_callback s j) i = None"
      by (auto simp: timeout_callback_pending timeout_callback_promises)
    then show ?thesis using Cons.IH by simp
  qed
qed

lemma time_passes_fields [simp]:
  "worker (time_passes s t) = worker s" "isInitialized (time_passes s t) = isInitialized s"
  "messageId (time_passes s t) = messageId s" "posted (time_passes s t) = posted s"
  "clock (time_passes s t) = max (clock s) t" "randomCalls (time_passes s t) = randomCalls s"
  "timers (time_passes s t) = filter (\<lambda>timer. t < fst timer) (timers s)"
  by (simp_all add: time_passes_def Let_def)

lemma time_passes_pending:
  "set (pendingMessages (time_passes s t)) =
     set (pendingMessages s) - snd ` {timer \<in> set (timers s). fst timer \<le> t}"
  by (auto simp: time_passes_def Let_def callbacks_pending)

lemma time_passes_promises_other:
  "i \<notin> snd ` {timer \<in> set (timers s). fst timer \<le> t} \<Longrightarrow> promises (time_passes s t) i = promises s i"
  by (simp add: time_passes_def Let_def callbacks_promises_other)

lemma time_passes_promises_settled:
  "promises s i = Some x \<Longrightarrow> promises (time_passes s t) i = Some x"
  by (simp add: time_passes_def Let_def callbacks_promises_settled)

lemma time_passes_promises_due:
  "(d, i) \<in> set (timers s) \<Longrightarrow> d \<le> t \<Longrightarrow> i \<in> set (pendingMessages s) \<Longrightarrow> promises s i = None \<Longrightarrow>
   promises (time_passes s t) i = Some (Rejected timeout_error)"
  by (simp add: time_passes_def Let_def) (rule callbacks_promises_due, force, simp_all)

lemma handleMessage_fields [simp]:
  "worker (handleMessage s m) = worker s" "isInitialized (handleMessage s m) = isInitialized s"
  "messageId (handleMessage s m) = messageId s"
  "timers (handleMessage s m) = timers s" "posted (handleMessage s m) = posted s"
  "clock (handleMessage s m) = clock s" "randomCalls (handleMessage s m) = randomCalls s"
  by (simp_all add: handleMessage_def Let_def)

lemma handleMessage_pending:
  "pendingMessages (handleMessage s m) = removeAll (snd m) (pendingMessages s)"
  by (simp add: handleMessage_def Let_def)

lemma handleMessage_promises:
  "promises (handleMessage s m) j =
     (if j = snd m \<and> snd m \<in> set (pendingMessages s) \<and> promises s (snd m) = None
      then Some (settlement_of (fst m)) else promises s j)"
  by (simp add: handleMessage_def Let_def settle_promises)


lemma sendMessage_id: "snd (sendMessage s body) = messageId s"
  by (simp add: sendMessage_def Let_def split: option.splits)

lemma sendMessage_fields [simp]:
  "worker (fst (sendMessage s body)) = worker s"
  "isInitialized (fst (sendMessage s body)) = isInitialized s"
  "messageId (fst (sendMessage s body)) = Suc (messageId s)"
  "clock (fst (sendMessage s body)) = clock s"
  "randomCalls (fst (sendMessage s body)) = randomCalls s"
  "pendingMessages (fst (sendMessage s body)) = map_set (messageId s) (pendingMessages s)"
  by (simp_all add: sendMessage_def Let_def split: option.splits)

lemma sendMessage_timers:
  "timers (fst (sendMessage s body)) =
     (case worker s of None \<Rightarrow> timers s | Some w \<Rightarrow> timers s @ [(clock s + timeout_ms, messageId s)])"
  by (simp add: sendMessage_def Let_def split: option.splits)

lemma sendMessage_posted:
  "posted (fst (sendMessage s body)) =
     (case worker s of None \<Rightarrow> posted s | Some w \<Rightarrow> posted s @ [(body, messageId s)])"
  by (simp add: sendMessage_def Let_def split: option.splits)

lemma sendMessage_promises:
  "promises (fst (sendMessage s body)) j =
     (if j = messageId s \<and> worker s = None \<and> promises s j = None
      then Some (Rejected TypeError_null_worker) else promises s j)"
  by (auto simp: sendMessage_def Let_def settle_promises split: option.splits)

lemma set_map_set [simp]: "set (map_set i ids) = insert i (set ids)"
  by (auto simp: map_set_def)

lemma terminate_fields [simp]:
  "worker (terminate s) = None"
  "messageId (terminate s) = messageId s" "pendingMessages (terminate s) = pendingMessages s"
  "promises (terminate s) = promises s" "timers (terminate s) = timers s"
  "posted (terminate s) = posted s" "clock (terminate s) = clock s"
  "randomCalls (terminate s) = randomCalls s"
  by (simp_all add: terminate_def split: option.splits)

lemma terminate_flag: "isInitialized (terminate s) = (isInitialized s \<and> worker s = None)"
  by (simp add: terminate_def split: option.splits)

lemma ids_below_new: "ids_below (new_EssentiaWorkerManager t0)"
  by (simp add: ids_below_def new_EssentiaWorkerManager_def)

lemma ids_below_step: "ids_below s \<Longrightarrow> ids_below (step s e)"
proof (cases e)
  case (Sends body)
  assume "ids_below s"
  then show ?thesis
    unfolding Sends ids_below_def list_all_iff
    by (auto simp: sendMessage_timers sendMessage_promises less_Suc_eq split: option.splits)
next
  case (Delivers r i)
  assume "ids_below s"
  then show ?thesis
    unfolding Delivers ids_below_def list_all_iff
    by (auto simp: handleMessage_pending handleMessage_promises)
next
  case (Time_passes t)
  assume "ids_below s"
  then show ?thesis
    unfolding Time_passes ids_below_def list_all_iff
    by (auto simp: time_passes_pending intro!: trans [OF time_passes_promises_other] dest: leD)
next
  case Terminates
  assume "ids_below s"
  then show ?thesis unfolding Terminates ids_below_def by simp
next
  case Starts_worker
  assume "ids_below s"
  then show ?thesis unfolding Starts_worker ids_below_def by simp
next
  case (Sets_initialized b)
  assume "ids_below s"
  then show ?thesis unfolding Sets_initialized ids_below_def by simp
next
  case Generates_mock
  assume "ids_below s"
  then show ?thesis unfolding Generates_mock ids_below_def by simp
qed

lemma run_snoc: "run s (evs @ [e]) = step (run s evs) e"
  by (simp add: run_def)

lemma run_append: "run s (evs @ evs') = run (run s evs) evs'"
  by (simp add: run_def)

lemma ids_below_run: "ids_below s \<Longrightarrow> ids_below (run s evs)"
  by (induction evs rule: rev_induct) (simp_all add: run_def ids_below_step)

lemma waiting_below: "waiting d i s \<Longrightarrow> i < messageId s"
  by (simp add: waiting_def ids_below_def list_all_iff)

lemma waiting_timer: "waiting d i s \<Longrightarrow> (d, i) \<in> set (timers s)"
proof -
  assume "waiting d i s"
  then have "(d, i) \<in> set (filter (\<lambda>timer. snd timer = i) (timers s))" by (simp add: waiting_def)
  then show ?thesis by simp
qed

lemma waiting_timer_unique: "waiting d i s \<Longrightarrow> (d', i) \<in> set (timers s) \<Longrightarrow> d' = d"
proof -
  assume w: "waiting d i s" and m: "(d', i) \<in> set (timers s)"
  from w have f: "filter (\<lambda>timer. snd timer = i) (timers s) = [(d, i)]" by (simp add: waiting_def)
  from m have "(d', i) \<in> set (filter (\<lambda>timer. snd timer = i) (timers s))" by simp
  with f show ?thesis by simp
qed

lemma clock_step: "clock s \<le> clock (step s e)"
  by (cases e) simp_all

lemma clock_run: "clock s \<le> clock (run s evs)"
  by (induction evs rule: rev_induct) (simp_all add: run_def le_trans [OF _ clock_step])

lemma promises_step: "promises s i = Some x \<Longrightarrow> promises (step s e) i = Some x"
  by (cases e) (auto simp: sendMessage_promises handleMessage_promises time_passes_promises_settled)

lemma expired_step: "expired i s \<Longrightarrow> expired i (step s e)"
proof (cases e)
  case (Sends body)
  assume "expired i s"
  then show ?thesis unfolding Sends expired_def by (auto simp: sendMessage_promises)
next
  case (Delivers r j)
  assume "expired i s"
  then show ?thesis unfolding Delivers expired_def
    by (auto simp: handleMessage_pending handleMessage_promises)
next
  case (Time_passes t)
  assume "expired i s"
  then show ?thesis unfolding Time_passes expired_def
    by (auto simp: time_passes_pending time_passes_promises_settled)
qed (simp_all add: expired_def)

lemma expired_run: "expired i s \<Longrightarrow> expired i (run s evs)"
  by (induction evs rule: rev_induct) (simp_all add: run_def expired_step)

lemma waiting_step:
  assumes w: "waiting d i s" and na: "\<not> answers i e"
  shows "waiting d i (step s e) \<or> (expired i (step s e) \<and> d \<le> clock (step s e))"
proof (cases e)
  case (Sends body)
  from w have "i \<noteq> messageId s" using waiting_below by blast
  moreover have "ids_below (step s e)" using w by (simp add: waiting_def ids_below_step)
  ultimately have "waiting d i (step s e)"
    using w unfolding Sends waiting_def
    by (auto simp: sendMessage_promises sendMessage_timers split: option.splits)
  then show ?thesis by simp
next
  case (Delivers r j)
  with na have "i \<noteq> j" by simp
  moreover have "ids_below (step s e)" using w by (simp add: waiting_def ids_below_step)
  ultimately have "waiting d i (step s e)"
    using w unfolding Delivers waiting_def
    by (auto simp: handleMessage_pending handleMessage_promises)
  then show ?thesis by simp
next
  case (Time_passes t)
  have below: "ids_below (step s e)" using w by (simp add: waiting_def ids_below_step)
  show ?thesis
  proof (cases "d \<le> t")
    case True
    have "promises (time_passes s t) i = Some (Rejected timeout_error)"
      using waiting_timer [OF w] True w by (intro time_passes_promises_due) (simp_all add: waiting_def)
    moreover have "i \<notin> set (pendingMessages (time_passes s t))"
      using waiting_timer [OF w] True by (force simp: time_passes_pending)
    ultimately show ?thesis
      using True waiting_below [OF w] unfolding Time_passes expired_def by (simp add: max_def)
  next
    case False
    have notdue: "i \<notin> snd ` {timer \<in> set (timers s). fst timer \<le> t}"
    proof
      assume "i \<in> snd ` {timer \<in> set (timers s). fst timer \<le> t}"
      then obtain d' where "(d', i) \<in> set (timers s)" "d' \<le> t" by force
      with waiting_timer_unique [OF w] False show False by auto
    qed
    have "filter (\<lambda>timer. snd timer = i) (filter (\<lambda>timer. t < fst timer) (timers s))
            = filter (\<lambda>timer. t < fst timer) (filter (\<lambda>timer. snd timer = i) (timers s))"
      by (simp add: conj_commute)
    also have "\<dots> = [(d, i)]" using w False by (simp add: waiting_def)
    finally have "waiting d i (step s e)"
      using w False notdue below unfolding Time_passes waiting_def
      by (simp add: time_passes_pending time_passes_promises_other max_def)
    then show ?thesis by simp
  qed
next
  case Terminates
  have "ids_below (step s e)" using w by (simp add: waiting_def ids_below_step)
  then have "waiting d i (step s e)" using w unfolding Terminates waiting_def by simp
  then show ?thesis by simp
next
  case Starts_worker
  have "ids_below (step s e)" using w by (simp add: waiting_def ids_below_step)
  then have "waiting d i (step s e)" using w unfolding Starts_worker waiting_def by simp
  then show ?thesis by simp
next
  case (Sets_initialized b)
  have "ids_below (step s e)" using w by (simp add: waiting_def ids_below_step)
  then have "waiting d i (step s e)" using w unfolding Sets_initialized waiting_def by simp
  then show ?thesis by simp
next
  case Generates_mock
  have "ids_below (step s e)" using w by (simp add: waiting_def ids_below_step)
  then have "waiting d i (step s e)" using w unfolding Generates_mock waiting_def by simp
  then show ?thesis by simp
qed

lemma run_Cons: "run s (e # evs) = run (step s e) evs"
  by (simp add: run_def)

lemma waiting_run:
  "waiting d i s \<Longrightarrow> list_all (\<lambda>e. \<not> answers i e) evs \<Longrightarrow>
   waiting d i (run s evs) \<or> (expired i (run s evs) \<and> d \<le> clock (run s evs))"
proof (induction evs arbitrary: s)
  case Nil
  then show ?case by (simp add: run_def)
next
  case (Cons e evs)
  from Cons.prems have na: "\<not> answers i e" and rest: "list_all (\<lambda>e. \<not> answers i e) evs" by simp_all
  from waiting_step [OF Cons.prems(1) na] show ?case
  proof
    assume "waiting d i (step s e)"
    from Cons.IH [OF this rest] show ?thesis by (simp add: run_Cons)
  next
    assume ex: "expired i (step s e) \<and> d \<le> clock (step s e)"
    then have "expired i (run (step s e) evs)" by (simp add: expired_run)
    moreover from ex have "d \<le> clock (run (step s e) evs)" using clock_run le_trans by blast
    ultimately show ?thesis by (simp add: run_Cons)
  qed
qed

lemma sendMessage_waiting:
  assumes below: "ids_below s" and live: "worker s \<noteq> None"
  shows "waiting (clock s + timeout_ms) (messageId s) (fst (sendMessage s body))"
proof -
  from below have "filter (\<lambda>timer. snd timer = messageId s) (timers s) = []"
    by (auto simp: ids_below_def list_all_iff filter_empty_conv)
  moreover have "ids_below (fst (sendMessage s body))"
    using ids_below_step [OF below, of "Sends body"] by simp
  moreover have "promises s (messageId s) = None" using below by (simp add: ids_below_def)
  ultimately show ?thesis
    using live unfolding waiting_def
    by (auto simp: sendMessage_promises sendMessage_timers timeout_ms_def)
qed

lemma armed_new: "armed (new_EssentiaWorkerManager t0)"
  by (simp add: armed_def ids_below_new) (simp add: new_EssentiaWorkerManager_def)

lemma pending_step:
  "i \<in> set (pendingMessages (step s e)) \<Longrightarrow>
   i \<in> set (pendingMessages s) \<or> (\<exists>body. e = Sends body \<and> i = messageId s)"
  by (cases e) (auto simp: handleMessage_pending time_passes_pending)

lemma armed_step:
  assumes a: "armed s"
  shows "armed (step s e)"
proof -
  from a have below: "ids_below s" by (simp add: armed_def)
  have "promises (step s e) i = Some (Rejected TypeError_null_worker) \<or> (\<exists>d. waiting d i (step s e))"
    if mem: "i \<in> set (pendingMessages (step s e))" for i
  proof (cases "i \<in> set (pendingMessages s)")
    case True
    with a have "promises s i = Some (Rejected TypeError_null_worker) \<or> (\<exists>d. waiting d i s)"
      by (simp add: armed_def list_all_iff)
    then show ?thesis
    proof
      assume "promises s i = Some (Rejected TypeError_null_worker)"
      then show ?thesis by (simp add: promises_step)
    next
      assume "\<exists>d. waiting d i s"
      then obtain d where w: "waiting d i s" ..
      have na: "\<not> answers i e"
      proof
        assume "answers i e"
        then obtain r where "e = Delivers r i" by (cases e) auto
        with mem show False by (simp add: handleMessage_pending)
      qed
      from waiting_step [OF w na] mem show ?thesis by (auto simp: expired_def)
    qed
  next
    case False
    with mem obtain body where e: "e = Sends body" and i: "i = messageId s"
      using pending_step by blast
    show ?thesis
    proof (cases "worker s")
      case None
      moreover from below have "promises s (messageId s) = None" by (simp add: ids_below_def)
      ultimately show ?thesis by (simp add: e i sendMessage_promises)
    next
      case (Some w)
      then have "waiting (clock s + timeout_ms) (messageId s) (fst (sendMessage s body))"
        using below by (intro sendMessage_waiting) simp_all
      then show ?thesis unfolding e i by auto
    qed
  qed
  then show ?thesis
    using ids_below_step [OF below, of e] by (simp add: armed_def list_all_iff)
qed

lemma armed_run: "armed s \<Longrightarrow> armed (run s evs)"
  by (induction evs rule: rev_induct) (simp_all add: run_def armed_step)

lemma waiting_terminate: "waiting d i s \<Longrightarrow> waiting d i (terminate s)"
proof -
  assume w: "waiting d i s"
  from waiting_step [OF w, of Terminates]
  have "waiting d i (terminate s) \<or> (expired i (terminate s) \<and> d \<le> clock s)" by simp
  moreover from w have "clock s < d" by (simp add: waiting_def)
  ultimately show ?thesis by auto
qed

lemma analyzeAudio_not_initialized:
  "\<not> isInitialized s \<Longrightarrow> analyzeAudio env s buf nm = mock_analysis env s"
  by (simp add: analyzeAudio_def)

lemma analyzeAudio_no_worker:
  assumes "worker s = None" "promises s (messageId s) = None"
  shows "snd (analyzeAudio env s buf nm) = Some (generateMockAnalysis (random env) (randomCalls s))"
    and "posted (fst (analyzeAudio env s buf nm)) = posted s"
proof -
  let ?s1 = "fst (sendMessage s (Analyze buf nm))"
  have p: "promises ?s1 (messageId s) = Some (Rejected TypeError_null_worker)"
    using assms by (simp add: sendMessage_promises)
  then have aw: "await_response env ?s1 (Analyze buf nm) (messageId s) = (?s1, Rejected TypeError_null_worker)"
    by (simp add: await_response_def)
  show "snd (analyzeAudio env s buf nm) = Some (generateMockAnalysis (random env) (randomCalls s))"
    by (cases "isInitialized s")
      (simp_all add: analyzeAudio_def split_beta sendMessage_id aw mock_analysis_def)
  show "posted (fst (analyzeAudio env s buf nm)) = posted s"
    using assms(1)
    by (cases "isInitialized s")
      (simp_all add: analyzeAudio_def split_beta sendMessage_id aw mock_analysis_def sendMessage_posted)
qed

lemma busy_worker_fields:
  "pendingMessages busy_worker = [Suc 0]" "promises busy_worker (Suc 0) = None" "clock busy_worker = 0"
  "worker busy_worker = Some Worker" "isInitialized busy_worker" "randomCalls busy_worker = 0"
  "timers busy_worker = [(60000, 0), (60000, Suc 0)]"
  by (simp_all add: busy_worker_def run_def new_EssentiaWorkerManager_def sendMessage_def
      handleMessage_def settle_def map_set_def Let_def timeout_ms_def)


lemma await_response_settles:
  assumes "waiting d i s"
  shows "promises (fst (await_response env s body i)) i = Some (snd (await_response env s body i))"
proof (cases "reply env body i")
  case None
  from assms have "d \<le> clock s + timeout_ms" by (simp add: waiting_def)
  with waiting_timer [OF assms] assms
  have "promises (time_passes s (clock s + timeout_ms)) i = Some (Rejected timeout_error)"
    by (intro time_passes_promises_due) (simp_all add: waiting_def)
  with None assms show ?thesis by (simp add: await_response_def waiting_def)
next
  case (Some r)
  with assms show ?thesis by (simp add: await_response_def waiting_def handleMessage_promises)
qed

lemma ready_worker_by_initialize:
  "initialize \<lparr>spawns = True, reply = (\<lambda>body i. Some (Init_complete True)), random = u\<rparr>
     (new_EssentiaWorkerManager 0) = (ready_worker, True)"
  by (simp add: initialize_def sendMessage_def await_response_def handleMessage_def settle_def
      settlement_of_def map_set_def Let_def new_EssentiaWorkerManager_def ready_worker_def fun_eq_iff)

lemma mock_analysis_fields [simp]:
  "posted (fst (mock_analysis env s)) = posted s" "clock (fst (mock_analysis env s)) = clock s"
  "randomCalls (fst (mock_analysis env s)) = randomCalls s + 8"
  "isInitialized (fst (mock_analysis env s)) = isInitialized s"
  "worker (fst (mock_analysis env s)) = worker s"
  "snd (mock_analysis env s) = Some (generateMockAnalysis (random env) (randomCalls s))"
  by (simp_all add: mock_analysis_def)

lemma time_passes_posted_flag:
  "posted (time_passes s t) = posted s" "isInitialized (time_passes s t) = isInitialized s"
  by simp_all

lemma await_response_posted:
  "posted (fst (await_response env s body i)) = posted s"
  by (simp add: await_response_def split: option.splits)

lemma analyzeAudio_posted:
  assumes "isInitialized s" "worker s \<noteq> None"
  shows "posted (fst (analyzeAudio env s buf nm)) = posted s @ [(Analyze buf nm, messageId s)]"
proof -
  obtain s1 i where send: "sendMessage s (Analyze buf nm) = (s1, i)" by (cases "sendMessage s (Analyze buf nm)")
  obtain s2 outcome where aw: "await_response env s1 (Analyze buf nm) i = (s2, outcome)"
    by (cases "await_response env s1 (Analyze buf nm) i")
  have p1: "posted s1 = posted s @ [(Analyze buf nm, messageId s)]"
    using sendMessage_posted [of s "Analyze buf nm"] assms(2) send by auto
  have p2: "posted s2 = posted s1" using await_response_posted [of env s1 "Analyze buf nm" i] aw by simp
  show ?thesis
    using assms(1) p1 p2
    by (simp add: analyzeAudio_def send aw split: settlement.splits response_body.splits)
qed

lemma attach_cached_none:
  "list_all (\<lambda>fa. \<not> hasCachedAnalysis m (fst fa)) files \<Longrightarrow> attach_cached now m files = (m, files, 0)"
  by (induction files) auto

lemma ready_worker_fields:
  "isInitialized ready_worker" "worker ready_worker = Some Worker" "messageId ready_worker = 1"
  "posted ready_worker = [(Init, 0)]" "clock ready_worker = 0"
  by (simp_all add: ready_worker_def)


lemma mock_analysis_run: "fst (mock_analysis env s) = run s [Generates_mock]"
  by (simp add: mock_analysis_def run_def)

lemma await_response_run: "\<exists>evs. fst (await_response env s body i) = run s evs"
proof (cases "promises s i")
  case (Some outcome)
  then have "fst (await_response env s body i) = run s []" by (simp add: await_response_def run_def)
  then show ?thesis ..
next
  case None
  show ?thesis
  proof (cases "reply env body i")
    case no_reply: None
    with None have "fst (await_response env s body i) = run s [Time_passes (clock s + timeout_ms)]"
      by (simp add: await_response_def run_def)
    then show ?thesis ..
  next
    case (Some r)
    with None have "fst (await_response env s body i) = run s [Delivers r i]"
      by (simp add: await_response_def run_def)
    then show ?thesis ..
  qed
qed

lemma analyzeAudio_run: "\<exists>evs. fst (analyzeAudio env s buf nm) = run s evs"
proof (cases "isInitialized s")
  case False
  then have "fst (analyzeAudio env s buf nm) = run s [Generates_mock]"
    by (simp add: analyzeAudio_def mock_analysis_run)
  then show ?thesis ..
next
  case True
  let ?body = "Analyze buf nm"
  let ?s1 = "fst (sendMessage s ?body)"
  have s1: "?s1 = run s [Sends ?body]" by (simp add: run_def)
  obtain evs where aw: "fst (await_response env ?s1 ?body (messageId s)) = run ?s1 evs"
    using await_response_run by blast
  let ?s2 = "fst (await_response env ?s1 ?body (messageId s))"
  have s2: "?s2 = run s (Sends ?body # evs)" by (simp add: aw run_Cons)
  have "fst (analyzeAudio env s buf nm) = ?s2 \<or> fst (analyzeAudio env s buf nm) = run ?s2 [Generates_mock]"
    using True
    by (simp add: analyzeAudio_def split_beta sendMessage_id mock_analysis_run
        split: settlement.splits response_body.splits)
  then show ?thesis
  proof
    assume "fst (analyzeAudio env s buf nm) = ?s2"
    with s2 show ?thesis by metis
  next
    assume "fst (analyzeAudio env s buf nm) = run ?s2 [Generates_mock]"
    then have "fst (analyzeAudio env s buf nm) = run s ((Sends ?body # evs) @ [Generates_mock])"
      by (simp only: s2 run_append)
    then show ?thesis ..
  qed
qed

lemma initialize_run: "\<exists>evs. fst (initialize env s) = run s evs"
proof (cases "spawns env")
  case False
  then have "fst (initialize env s) = run s [Sets_initialized False]"
    by (simp add: initialize_def run_def)
  then show ?thesis ..
next
  case True
  let ?s0 = "s\<lparr>worker := Some Worker\<rparr>"
  let ?s1 = "fst (sendMessage ?s0 Init)"
  let ?i = "messageId s"
  obtain evs where aw: "fst (await_response env ?s1 Init ?i) = run ?s1 evs"
    using await_response_run by blast
  let ?s2 = "fst (await_response env ?s1 Init ?i)"
  have s2: "?s2 = run s (Starts_worker # Sends Init # evs)" by (simp add: aw run_Cons sendMessage_id)
  have "fst (initialize env s) = ?s2 \<or> (\<exists>b. fst (initialize env s) = run ?s2 [Sets_initialized b])"
    using True
    by (auto simp: initialize_def Let_def split_beta sendMessage_id run_def
        split: settlement.splits response_body.splits bool.splits)
  then show ?thesis
  proof (elim disjE exE)
    assume "fst (initialize env s) = ?s2"
    with s2 show ?thesis by metis
  next
    fix b assume "fst (initialize env s) = run ?s2 [Sets_initialized b]"
    then have "fst (initialize env s) = run s ((Starts_worker # Sends Init # evs) @ [Sets_initialized b])"
      by (simp only: s2 run_append)
    then show ?thesis ..
  qed
qed

lemma worker_step: "worker s = None \<Longrightarrow> e \<noteq> Starts_worker \<Longrightarrow> worker (step s e) = None"
  by (cases e) simp_all

lemma worker_run:
  "worker s = None \<Longrightarrow> list_all (\<lambda>e. e \<noteq> Starts_worker) evs \<Longrightarrow> worker (run s evs) = None"
  by (induction evs arbitrary: s) (simp_all add: run_def worker_step)




section \<open>Request timeout and late responses\<close>




section \<open>Termination of the channel\<close>

text \<open>
  Claim C6, as amended. In a state the manager can reach, \<open>terminate\<close> drops the
  worker (and, when there was one, clears the flag) and leaves the pending map, the
  promises and the timers as they are. Every request in the map at that moment was
  rejected when it was sent (no worker), or is unsettled with its own timer armed, due
  within the timeout: unless a message with its id is delivered, it stays in the map
  until its deadline and is then removed and rejected with the timeout error. Until a
  new worker is started, every \<open>analyzeAudio\<close> on the terminated manager returns a
  synthetic analysis and posts nothing.
\<close>

theorem terminate_leaves_requests_to_timeout:
  assumes reach: "s = run (new_EssentiaWorkerManager t0) evs0"
  shows "worker (terminate s) = None \<and>
     isInitialized (terminate s) = (isInitialized s \<and> worker s = None) \<and>
     pendingMessages (terminate s) = pendingMessages s \<and>
     promises (terminate s) = promises s \<and>
     timers (terminate s) = timers s \<and>
     (\<forall>i\<in>set (pendingMessages s).
        promises s i = Some (Rejected TypeError_null_worker) \<or>
        (promises s i = None \<and>
         (\<exists>d. (d, i) \<in> set (timers s) \<and> d \<le> clock s + timeout_ms \<and> clock s < d \<and>
            (\<forall>evs. list_all (\<lambda>e. \<not> answers i e) evs \<longrightarrow>
               (clock (run (terminate s) evs) < d \<longrightarrow>
                  i \<in> set (pendingMessages (run (terminate s) evs)) \<and>
                  promises (run (terminate s) evs) i = None) \<and>
               (d \<le> clock (run (terminate s) evs) \<longrightarrow>
                  i \<notin> set (pendingMessages (run (terminate s) evs)) \<and>
                  promises (run (terminate s) evs) i = Some (Rejected timeout_error)))))) \<and>
     (\<forall>evs env buf nm. list_all (\<lambda>e. e \<noteq> Starts_worker) evs \<longrightarrow>
        snd (analyzeAudio env (run (terminate s) evs) buf nm)
          = Some (generateMockAnalysis (random env) (randomCalls (run (terminate s) evs))) \<and>
        posted (fst (analyzeAudio env (run (terminate s) evs) buf nm)) = posted (run (terminate s) evs))"
proof -
  have a: "armed s" unfolding reach by (intro armed_run armed_new)
  then have below: "ids_below s" by (simp add: armed_def)
  have pend: "promises s i = Some (Rejected TypeError_null_worker) \<or>
        (promises s i = None \<and>
         (\<exists>d. (d, i) \<in> set (timers s) \<and> d \<le> clock s + timeout_ms \<and> clock s < d \<and>
            (\<forall>evs. list_all (\<lambda>e. \<not> answers i e) evs \<longrightarrow>
               (clock (run (terminate s) evs) < d \<longrightarrow>
                  i \<in> set (pendingMessages (run (terminate s) evs)) \<and>
                  promises (run (terminate s) evs) i = None) \<and>
               (d \<le> clock (run (terminate s) evs) \<longrightarrow>
                  i \<notin> set (pendingMessages (run (terminate s) evs)) \<and>
                  promises (run (terminate s) evs) i = Some (Rejected timeout_error)))))"
    if mem: "i \<in> set (pendingMessages s)" for i
  proof -
    from a mem have "promises s i = Some (Rejected TypeError_null_worker) \<or> (\<exists>d. waiting d i s)"
      by (simp add: armed_def list_all_iff)
    then show ?thesis
    proof
      assume "promises s i = Some (Rejected TypeError_null_worker)"
      then show ?thesis by simp
    next
      assume "\<exists>d. waiting d i s"
      then obtain d where w: "waiting d i s" ..
      have track: "(clock (run (terminate s) evs) < d \<longrightarrow>
                  i \<in> set (pendingMessages (run (terminate s) evs)) \<and>
                  promises (run (terminate s) evs) i = None) \<and>
               (d \<le> clock (run (terminate s) evs) \<longrightarrow>
                  i \<notin> set (pendingMessages (run (terminate s) evs)) \<and>
                  promises (run (terminate s) evs) i = Some (Rejected timeout_error))"
        if q: "list_all (\<lambda>e. \<not> answers i e) evs" for evs
        using waiting_run [OF waiting_terminate [OF w] q] by (auto simp: waiting_def expired_def)
      from w have "promises s i = None" "clock s < d" "d \<le> clock s + timeout_ms"
        by (simp_all add: waiting_def)
      with waiting_timer [OF w] track show ?thesis by blast
    qed
  qed
  have an: "snd (analyzeAudio env (run (terminate s) evs) buf nm)
          = Some (generateMockAnalysis (random env) (randomCalls (run (terminate s) evs))) \<and>
        posted (fst (analyzeAudio env (run (terminate s) evs) buf nm)) = posted (run (terminate s) evs)"
    if quiet: "list_all (\<lambda>e. e \<noteq> Starts_worker) evs" for evs env buf nm
  proof -
    let ?s = "run (terminate s) evs"
    have "ids_below (terminate s)" using ids_below_step [OF below, of Terminates] by simp
    then have "ids_below ?s" by (rule ids_below_run)
    then have "promises ?s (messageId ?s) = None" by (simp add: ids_below_def)
    moreover have "worker ?s = None" using quiet by (intro worker_run) simp_all
    ultimately show ?thesis using analyzeAudio_no_worker [of ?s env buf nm] by simp
  qed
  show ?thesis
    using pend an by (simp add: terminate_flag)
qed

text \<open>
  The theorem for a manager with one outstanding \<^verbatim>\<open>analyze\<close> request: after
  \<open>terminate\<close> the request is rejected when its timer fires at 60000 ms.
\<close>

theorem terminate_leaves_requests_to_timeout_witness:
  "1 \<in> set (pendingMessages busy_worker) \<and>
   promises (run (terminate busy_worker) [Time_passes 60000]) 1 = Some (Rejected timeout_error) \<and>
   1 \<notin> set (pendingMessages (run (terminate busy_worker) [Time_passes 60000])) \<and>
   \<not> isInitialized (terminate busy_worker) \<and>
   snd (analyzeAudio silent_channel (terminate busy_worker) (Some [0]) ''clip.mp3'')
     = Some (generateMockAnalysis (random silent_channel) 0)"
proof -
  note inst = terminate_leaves_requests_to_timeout [OF busy_worker_def]
  have mem: "1 \<in> set (pendingMessages busy_worker)" by (simp add: busy_worker_fields)
  from inst mem have "promises busy_worker 1 = Some (Rejected TypeError_null_worker) \<or>
        (promises busy_worker 1 = None \<and>
         (\<exists>d. (d, 1) \<in> set (timers busy_worker) \<and> d \<le> clock busy_worker + timeout_ms \<and> clock busy_worker < d \<and>
            (\<forall>evs. list_all (\<lambda>e. \<not> answers 1 e) evs \<longrightarrow>
               (clock (run (terminate busy_worker) evs) < d \<longrightarrow>
                  1 \<in> set (pendingMessages (run (terminate busy_worker) evs)) \<and>
                  promises (run (terminate busy_worker) evs) 1 = None) \<and>
               (d \<le> clock (run (terminate busy_worker) evs) \<longrightarrow>
                  1 \<notin> set (pendingMessages (run (terminate busy_worker) evs)) \<and>
                  promises (run (terminate busy_worker) evs) 1 = Some (Rejected timeout_error)))))"
    by blast
  then obtain d where d: "d \<le> clock busy_worker + timeout_ms"
    and track: "\<And>evs. list_all (\<lambda>e. \<not> answers 1 e) evs \<Longrightarrow>
               d \<le> clock (run (terminate busy_worker) evs) \<Longrightarrow>
                  1 \<notin> set (pendingMessages (run (terminate busy_worker) evs)) \<and>
                  promises (run (terminate busy_worker) evs) 1 = Some (Rejected timeout_error)"
    by (auto simp: busy_worker_fields)
  have "d \<le> clock (run (terminate busy_worker) [Time_passes 60000])"
    using d by (simp add: run_def busy_worker_fields timeout_ms_def)
  then have late: "1 \<notin> set (pendingMessages (run (terminate busy_worker) [Time_passes 60000])) \<and>
        promises (run (terminate busy_worker) [Time_passes 60000]) 1 = Some (Rejected timeout_error)"
    by (intro track) simp
  from inst have flag: "isInitialized (terminate busy_worker) = (isInitialized busy_worker \<and> worker busy_worker = None)"
    by blast
  from inst have "list_all (\<lambda>e. e \<noteq> Starts_worker) [] \<longrightarrow>
     snd (analyzeAudio silent_channel (run (terminate busy_worker) []) (Some [0]) ''clip.mp3'')
     = Some (generateMockAnalysis (random silent_channel) (randomCalls (run (terminate busy_worker) [])))"
    by blast
  then have "snd (analyzeAudio silent_channel (terminate busy_worker) (Some [0]) ''clip.mp3'')
     = Some (generateMockAnalysis (random silent_channel) (randomCalls busy_worker))"
    by (simp add: run_def)
  with mem late flag show ?thesis by (simp add: busy_worker_fields)
qed

text \<open>
  Claim C6 as stated fails: \<open>terminate\<close> does not fail the outstanding request. Right
  after it, request 1 is still in the pending map and its promise is not settled.
\<close>

theorem terminate_counterexample:
  "1 \<in> set (pendingMessages (terminate busy_worker)) \<and> promises (terminate busy_worker) 1 = None"
  by (simp add: busy_worker_fields)

section \<open>Batch processing\<close>

text \<open>
  Claim C1, the code at a dataset of two files with a worker that was never initialised,
  an empty cache, and any browser. Both files end with an analysis, and both analyses are
  synthetic: \<open>analyzeAudio\<close> returns the mock without throwing, so the \<^verbatim>\<open>try\<close> block goes
  on to \<open>setCachedAnalysis\<close>. Nothing is posted to the worker, and the cache ends with
  two entries that hold the synthetic analyses, not with none.
\<close>

theorem disabled_engine_results_are_cached:
  "audioFiles
     (process_dataset \<lparr>storage = st, channel = ch, fetch_and_decode = dec\<rparr>
        \<lparr>cacheManager = new_CacheManager None, essentiaWorker = new_EssentiaWorkerManager now,
         audioFiles = [(sample_file 0, None), (sample_file 1, None)], current = 0, cached = 0\<rparr>)
     = [(sample_file 0, Some (generateMockAnalysis (random ch) 0)),
        (sample_file 1, Some (generateMockAnalysis (random ch) 8))] \<and>
   data (cache (cacheManager
     (process_dataset \<lparr>storage = st, channel = ch, fetch_and_decode = dec\<rparr>
        \<lparr>cacheManager = new_CacheManager None, essentiaWorker = new_EssentiaWorkerManager now,
         audioFiles = [(sample_file 0, None), (sample_file 1, None)], current = 0, cached = 0\<rparr>)))
     = [(generateFileKey (sample_file 0),
           new_entry (sample_file 0) (Some (generateMockAnalysis (random ch) 0)) now now),
        (generateFileKey (sample_file 1),
           new_entry (sample_file 1) (Some (generateMockAnalysis (random ch) 8)) now now)] \<and>
   posted (essentiaWorker
     (process_dataset \<lparr>storage = st, channel = ch, fetch_and_decode = dec\<rparr>
        \<lparr>cacheManager = new_CacheManager None, essentiaWorker = new_EssentiaWorkerManager now,
         audioFiles = [(sample_file 0, None), (sample_file 1, None)], current = 0, cached = 0\<rparr>)) = []"
proof -
  let ?env = "\<lparr>storage = st, channel = ch, fetch_and_decode = dec\<rparr>"
  let ?w0 = "new_EssentiaWorkerManager now"
  let ?m0 = "new_CacheManager None :: analysis_result option cache_manager"
  let ?p0 = "\<lparr>cacheManager = ?m0, essentiaWorker = ?w0,
         audioFiles = [(sample_file 0, None), (sample_file 1, None)], current = 0, cached = 0\<rparr>"
  let ?a0 = "Some (generateMockAnalysis (random ch) 0)"
  let ?a1 = "Some (generateMockAnalysis (random ch) 8)"
  let ?w1 = "?w0\<lparr>randomCalls := 8\<rparr>"
  let ?w2 = "?w0\<lparr>randomCalls := 16\<rparr>"
  have w0: "\<not> isInitialized ?w0" "clock ?w0 = now" "randomCalls ?w0 = 0" "posted ?w0 = []"
    by (simp_all add: new_EssentiaWorkerManager_def)
  have an0: "analyzeAudio ch ?w0 buf nm = (?w1, ?a0)" for buf nm
    by (simp add: analyzeAudio_def mock_analysis_def new_EssentiaWorkerManager_def)
  have an1: "analyzeAudio ch ?w1 buf nm = (?w2, ?a1)" for buf nm
    by (simp add: analyzeAudio_def mock_analysis_def new_EssentiaWorkerManager_def)
  let ?m1 = "setCachedAnalysis st ?m0 (sample_file 0) ?a0 now now"
  let ?m2 = "setCachedAnalysis st ?m1 (sample_file 1) ?a1 now now"
  have d1: "data (cache ?m1) = [(generateFileKey (sample_file 0), new_entry (sample_file 0) ?a0 now now)]"
    using set_sorted_small [of "sample_file 0" ?m0 now st ?a0 now] by (simp add: keepCount_eq)
  have d2: "data (cache ?m2) = [(generateFileKey (sample_file 0), new_entry (sample_file 0) ?a0 now now),
                               (generateFileKey (sample_file 1), new_entry (sample_file 1) ?a1 now now)]"
    using set_sorted_small [of "sample_file 1" ?m1 now st ?a1 now]
    by (simp add: d1 keepCount_eq new_entry_def)
  have attach: "attach_cached now ?m0 [(sample_file 0, None), (sample_file 1, None)]
                  = (?m0, [(sample_file 0, None), (sample_file 1, None)], 0)"
    by (rule attach_cached_none) (simp add: hasCachedAnalysis_def)
  let ?p1 = "?p0\<lparr>cacheManager := ?m1, essentiaWorker := ?w1,
                   audioFiles := [(sample_file 0, ?a0), (sample_file 1, None)], current := 1\<rparr>"
  have first: "(processFirstAudioFile ?env ?p0)\<lparr>current := 1\<rparr> = ?p1"
    by (simp add: processFirstAudioFile_def hasCachedAnalysis_def analyze_and_cache_def try_analyze_and_cache_def an0 w0 Let_def)
  let ?p2 = "?p0\<lparr>cacheManager := ?m2, essentiaWorker := ?w2,
                   audioFiles := [(sample_file 0, ?a0), (sample_file 1, ?a1)], current := 2\<rparr>"
  have rest: "processRemainingAudioFiles ?env ?p1 = ?p2"
    by (simp add: processRemainingAudioFiles_def process_remaining_step_def hasCachedAnalysis_def d1
        analyze_and_cache_def try_analyze_and_cache_def an1 w0 Let_def)
  have "process_dataset ?env ?p0 = processRemainingAudioFiles ?env ((processFirstAudioFile ?env ?p0)\<lparr>current := 1\<rparr>)"
    unfolding process_dataset_def by (simp only: pipeline.simps w0 attach) simp
  then have "process_dataset ?env ?p0 = ?p2"
    by (simp only: first rest)
  then show ?thesis using d2 by (simp add: w0)
qed

text \<open>
  Claim C3, the code at a dataset of one file whose decoding fails, with an initialised
  worker, an empty cache and any worker behaviour. \<open>loadAudioBuffer\<close> returns \<^verbatim>\<open>null\<close>
  without throwing; the \<^verbatim>\<open>try\<close> block hands the \<^verbatim>\<open>null\<close> to \<open>analyzeAudio\<close>, which posts an
  \<^verbatim>\<open>analyze\<close> request (id 1) with the \<^verbatim>\<open>null\<close> buffer to the worker; whatever comes back
  is stored in the cache under the file's key.
\<close>

theorem decode_failure_reaches_worker_and_cache:
  "loadAudioBuffer \<lparr>storage = st, channel = ch, fetch_and_decode = (\<lambda>f. Inl OtherError)\<rparr> (sample_file 0) = None \<and>
   posted (essentiaWorker
     (process_dataset \<lparr>storage = st, channel = ch, fetch_and_decode = (\<lambda>f. Inl OtherError)\<rparr>
        \<lparr>cacheManager = new_CacheManager None, essentiaWorker = ready_worker,
         audioFiles = [(sample_file 0, None)], current = 0, cached = 0\<rparr>))
     = [(Init, 0), (Analyze None ''clip.mp3'', 1)] \<and>
   map fst (data (cache (cacheManager
     (process_dataset \<lparr>storage = st, channel = ch, fetch_and_decode = (\<lambda>f. Inl OtherError)\<rparr>
        \<lparr>cacheManager = new_CacheManager None, essentiaWorker = ready_worker,
         audioFiles = [(sample_file 0, None)], current = 0, cached = 0\<rparr>))))
     = [generateFileKey (sample_file 0)]"
proof -
  let ?env = "\<lparr>storage = st, channel = ch, fetch_and_decode = (\<lambda>f. Inl OtherError)\<rparr>"
  let ?m0 = "new_CacheManager None :: analysis_result option cache_manager"
  let ?p0 = "\<lparr>cacheManager = ?m0, essentiaWorker = ready_worker,
         audioFiles = [(sample_file 0, None)], current = 0, cached = 0\<rparr>"
  have load: "loadAudioBuffer ?env (sample_file 0) = None" by (simp add: loadAudioBuffer_def)
  obtain w a where an: "analyzeAudio ch ready_worker None ''clip.mp3'' = (w, a)"
    by (cases "analyzeAudio ch ready_worker None ''clip.mp3''")
  have "posted (fst (analyzeAudio ch ready_worker None ''clip.mp3''))
          = posted ready_worker @ [(Analyze None ''clip.mp3'', messageId ready_worker)]"
    by (rule analyzeAudio_posted) (simp_all add: ready_worker_fields)
  then have pw: "posted w = [(Init, 0), (Analyze None ''clip.mp3'', 1)]"
    by (simp add: an ready_worker_fields)
  let ?m1 = "setCachedAnalysis st ?m0 (sample_file 0) a (clock w) (clock w)"
  have d1: "data (cache ?m1) = [(generateFileKey (sample_file 0), new_entry (sample_file 0) a (clock w) (clock w))]"
    using set_sorted_small [of "sample_file 0" ?m0 "clock w" st a "clock w"] by (simp add: keepCount_eq)
  have attach: "attach_cached 0 ?m0 [(sample_file 0, None)] = (?m0, [(sample_file 0, None)], 0)"
    by (rule attach_cached_none) (simp add: hasCachedAnalysis_def)
  let ?p1 = "?p0\<lparr>cacheManager := ?m1, essentiaWorker := w, audioFiles := [(sample_file 0, a)], current := 1\<rparr>"
  have nm: "name (sample_file 0) = ''clip.mp3''" by (simp add: sample_file_def)
  have first: "(processFirstAudioFile ?env ?p0)\<lparr>current := 1\<rparr> = ?p1"
    by (simp add: processFirstAudioFile_def hasCachedAnalysis_def analyze_and_cache_def try_analyze_and_cache_def load nm an Let_def)
  have rest: "processRemainingAudioFiles ?env ?p1 = ?p1"
    by (simp add: processRemainingAudioFiles_def)
  have "process_dataset ?env ?p0 = processRemainingAudioFiles ?env ((processFirstAudioFile ?env ?p0)\<lparr>current := 1\<rparr>)"
    unfolding process_dataset_def by (simp only: pipeline.simps ready_worker_fields attach) simp
  then have "process_dataset ?env ?p0 = ?p1"
    by (simp only: first rest)
  then show ?thesis using d1 pw load by simp
qed

end
